theory Spec2Isabelle
  imports Complex_Main "HOL-Library.Word" "HOL-Library.Log_Nat"
begin

unbundle bit_operations_syntax

section \<open>Python floats\<close>

text \<open>
  A Python float is an IEEE-754 binary64 value: a finite number, an infinity or NaN.  A
  finite one is modelled as the rational number it denotes (the two zeros are one value:
  nothing below tells them apart).  Every arithmetic operation rounds its exact result to
  the nearest binary64 value, ties to even, with gradual underflow (a 53-bit significand,
  least exponent \<open>-1022\<close>) and overflow to an infinity; comparisons with NaN are false;
  division by zero, \<open>int\<close> of a NaN or an infinity and \<open>float\<close> of too large an int raise.
\<close>

datatype pyfloat = Finite rat | PosInf | NegInf | NaN

datatype py_error =
  ZeroDivisionError | ValueError | OverflowError | IndexError | AttributeError | CanError

definition rne :: "rat \<Rightarrow> int" where
  \<comment> \<open>round to the nearest integer, ties to the even one\<close>
  "rne r = (let f = \<lfloor>r\<rfloor>; d = r - of_int f in
     if d < 1 / 2 then f else if 1 / 2 < d then f + 1 else if even f then f else f + 1)"

definition binade :: "rat \<Rightarrow> int" where
  \<comment> \<open>the exponent \<open>e\<close> with \<open>2 ^ e \<le> \<bar>q\<bar> < 2 ^ (e + 1)\<close>, for \<open>q \<noteq> 0\<close>\<close>
  "binade q = (let (a, b) = quotient_of \<bar>q\<bar>; e0 = bitlen a - bitlen b in
     if power_int 2 e0 \<le> \<bar>q\<bar> then e0 else e0 - 1)"

definition fl :: "rat \<Rightarrow> rat" where
  \<comment> \<open>the nearest number with a 53-bit significand and an exponent of at least \<open>-1022\<close>\<close>
  "fl x = (if x = 0 then 0 else
     let e = max (binade x) (- 1022) - 52 in of_int (rne (x / power_int 2 e)) * power_int 2 e)"

definition round64 :: "rat \<Rightarrow> pyfloat" where
  \<comment> \<open>the binary64 value of the exact result \<open>x\<close>: an infinity when the rounded magnitude
      reaches \<open>2 ^ 1024\<close>\<close>
  "round64 x = (let y = fl x in
     if y \<noteq> 0 \<and> 1024 \<le> binade y then (if 0 < y then PosInf else NegInf) else Finite y)"

fun fneg :: "pyfloat \<Rightarrow> pyfloat" where
  "fneg (Finite x) = Finite (- x)"
| "fneg PosInf = NegInf"
| "fneg NegInf = PosInf"
| "fneg NaN = NaN"

fun fadd :: "pyfloat \<Rightarrow> pyfloat \<Rightarrow> pyfloat" where
  "fadd (Finite x) (Finite y) = round64 (x + y)"
| "fadd NaN b = NaN"
| "fadd a NaN = NaN"
| "fadd PosInf NegInf = NaN"
| "fadd NegInf PosInf = NaN"
| "fadd PosInf b = PosInf"
| "fadd a PosInf = PosInf"
| "fadd NegInf b = NegInf"
| "fadd a NegInf = NegInf"

definition fsub :: "pyfloat \<Rightarrow> pyfloat \<Rightarrow> pyfloat" where
  "fsub a b = fadd a (fneg b)"

fun fmul :: "pyfloat \<Rightarrow> pyfloat \<Rightarrow> pyfloat" where
  "fmul (Finite x) (Finite y) = round64 (x * y)"
| "fmul NaN b = NaN"
| "fmul a NaN = NaN"
| "fmul (Finite x) PosInf = (if x = 0 then NaN else if 0 < x then PosInf else NegInf)"
| "fmul (Finite x) NegInf = (if x = 0 then NaN else if 0 < x then NegInf else PosInf)"
| "fmul PosInf (Finite y) = (if y = 0 then NaN else if 0 < y then PosInf else NegInf)"
| "fmul NegInf (Finite y) = (if y = 0 then NaN else if 0 < y then NegInf else PosInf)"
| "fmul PosInf PosInf = PosInf"
| "fmul PosInf NegInf = NegInf"
| "fmul NegInf PosInf = NegInf"
| "fmul NegInf NegInf = PosInf"

fun fdiv :: "pyfloat \<Rightarrow> pyfloat \<Rightarrow> py_error + pyfloat" where
  \<comment> \<open>Python's \<open>/\<close> on floats raises on a zero divisor, whatever the dividend\<close>
  "fdiv a (Finite y) =
     (if y = 0 then Inl ZeroDivisionError
      else (case a of
              Finite x \<Rightarrow> Inr (round64 (x / y))
            | PosInf \<Rightarrow> Inr (if 0 < y then PosInf else NegInf)
            | NegInf \<Rightarrow> Inr (if 0 < y then NegInf else PosInf)
            | NaN \<Rightarrow> Inr NaN))"
| "fdiv NaN b = Inr NaN"
| "fdiv a NaN = Inr NaN"
| "fdiv (Finite x) b = Inr (Finite 0)"
| "fdiv a b = Inr NaN"

fun py_lt :: "pyfloat \<Rightarrow> pyfloat \<Rightarrow> bool" where
  \<comment> \<open>\<open>a < b\<close> on floats\<close>
  "py_lt (Finite x) (Finite y) = (x < y)"
| "py_lt NaN b = False"
| "py_lt a NaN = False"
| "py_lt a NegInf = False"
| "py_lt PosInf b = False"
| "py_lt a b = True"

definition trunc_zero :: "rat \<Rightarrow> int" where
  \<comment> \<open>truncation toward zero\<close>
  "trunc_zero x = (if 0 \<le> x then \<lfloor>x\<rfloor> else \<lceil>x\<rceil>)"

fun py_int :: "pyfloat \<Rightarrow> py_error + int" where
  \<comment> \<open>\<open>int(x)\<close> on a float\<close>
  "py_int (Finite x) = Inr (trunc_zero x)"
| "py_int NaN = Inl ValueError"
| "py_int PosInf = Inl OverflowError"
| "py_int NegInf = Inl OverflowError"

definition py_float :: "int \<Rightarrow> py_error + pyfloat" where
  \<comment> \<open>\<open>float(n)\<close> on an int: the nearest float, or OverflowError\<close>
  "py_float n = (case round64 (of_int n) of Finite y \<Rightarrow> Inr (Finite y) | _ \<Rightarrow> Inl OverflowError)"

definition py_min :: "pyfloat \<Rightarrow> pyfloat \<Rightarrow> pyfloat" where
  \<comment> \<open>the builtin \<open>min(a, b)\<close>: the first argument unless the second is smaller\<close>
  "py_min a b = (if py_lt b a then b else a)"

definition py_max :: "pyfloat \<Rightarrow> pyfloat \<Rightarrow> pyfloat" where
  \<comment> \<open>the builtin \<open>max(a, b)\<close>: the first argument unless the second is larger\<close>
  "py_max a b = (if py_lt a b then b else a)"

definition bind_err :: "py_error + 'a \<Rightarrow> ('a \<Rightarrow> py_error + 'b) \<Rightarrow> py_error + 'b" where
  \<comment> \<open>sequencing: an exception raised by the first step skips the rest\<close>
  "bind_err m f = (case m of Inl e \<Rightarrow> Inl e | Inr v \<Rightarrow> f v)"

section \<open>constants.py\<close>

definition P_MIN :: pyfloat where "P_MIN = Finite (- 12.5)"
definition P_MAX :: pyfloat where "P_MAX = Finite 12.5"
definition V_MIN :: pyfloat where "V_MIN = Finite (- 8)"
definition V_MAX :: pyfloat where "V_MAX = Finite 8"
definition KP_MIN :: pyfloat where "KP_MIN = Finite 0"
definition KP_MAX :: pyfloat where "KP_MAX = Finite 500"
definition KD_MIN :: pyfloat where "KD_MIN = Finite 0"
definition KD_MAX :: pyfloat where "KD_MAX = Finite 5"
definition T_MIN :: pyfloat where "T_MIN = Finite (- 144)"
definition T_MAX :: pyfloat where "T_MAX = Finite 144"
definition CONTROLLER_ID :: int where "CONTROLLER_ID = 0x17"

section \<open>motor.py\<close>

subsection \<open>The motor state\<close>

record motor_state =
  p_in :: pyfloat
  v_in :: pyfloat
  kp_in :: pyfloat
  kd_in :: pyfloat
  t_in :: pyfloat
  p_out :: pyfloat
  v_out :: pyfloat
  t_out :: pyfloat

definition MotorState :: motor_state where
  "MotorState = \<lparr>p_in = Finite 0, v_in = Finite 0, kp_in = Finite 0, kd_in = Finite 0.5,
                  t_in = Finite 0, p_out = Finite 0, v_out = Finite 0, t_out = Finite 0\<rparr>"

subsection \<open>The fixed-point conversions\<close>

definition float_to_uint :: "pyfloat \<Rightarrow> pyfloat \<Rightarrow> pyfloat \<Rightarrow> int \<Rightarrow> py_error + int" where
  "float_to_uint x x_min x_max bits =
     (let span = fsub x_max x_min; offset = x_min in
      if bits = 12 then
        bind_err (fdiv (fmul (fsub x offset) (Finite 4095)) span) py_int
      else if bits = 16 then
        bind_err (fdiv (fmul (fsub x offset) (Finite 65535)) span) py_int
      else Inr 0)"

definition uint_to_float :: "int \<Rightarrow> pyfloat \<Rightarrow> pyfloat \<Rightarrow> int \<Rightarrow> py_error + pyfloat" where
  "uint_to_float x_int x_min x_max bits =
     (let span = fsub x_max x_min; offset = x_min in
      if bits = 12 then
        bind_err (py_float x_int) (\<lambda>f.
        bind_err (fdiv (fmul f span) (Finite 4095)) (\<lambda>q. Inr (fadd q offset)))
      else if bits = 16 then
        bind_err (py_float x_int) (\<lambda>f.
        bind_err (fdiv (fmul f span) (Finite 65535)) (\<lambda>q. Inr (fadd q offset)))
      else Inr (Finite 0))"

subsection \<open>The bus and its frames\<close>

text \<open>
  A frame is what \<open>can.Message\<close> holds: the arbitration id, the data as a bytearray and the
  extended-id flag.  The bus belongs to the transport library; of it the model keeps the
  frames handed over so far and whether \<open>send\<close> raises.
\<close>

record can_message =
  arbitration_id :: int
  data :: "8 word list"
  is_extended_id :: bool

record bus =
  sent :: "can_message list"
  send_raises :: bool

definition bus_send :: "bus \<Rightarrow> can_message \<Rightarrow> py_error + bus" where
  "bus_send b msg = (if send_raises b then Inl CanError else Inr (b\<lparr>sent := sent b @ [msg]\<rparr>))"

definition try_send :: "bus \<Rightarrow> can_message \<Rightarrow> bool \<times> bus" where
  \<comment> \<open>\<open>try: bus.send(msg); return True\<close> \<open>except: return False\<close>\<close>
  "try_send b msg = (case bus_send b msg of Inr b' \<Rightarrow> (True, b') | Inl e \<Rightarrow> (False, b))"

subsection \<open>Mode commands\<close>

definition enter_mode :: "bus option \<Rightarrow> bool \<times> bus option" where
  "enter_mode bus =
     (case bus of None \<Rightarrow> (False, None)
      | Some b \<Rightarrow>
          let msg = \<lparr>arbitration_id = CONTROLLER_ID,
                     data = [0xFF, 0xFF, 0xFF, 0xFF, 0xFF, 0xFF, 0xFF, 0xFC],
                     is_extended_id = False\<rparr>;
              (ok, b') = try_send b msg
          in (ok, Some b'))"

definition exit_mode :: "bus option \<Rightarrow> bool \<times> bus option" where
  "exit_mode bus =
     (case bus of None \<Rightarrow> (False, None)
      | Some b \<Rightarrow>
          let msg = \<lparr>arbitration_id = CONTROLLER_ID,
                     data = [0xFF, 0xFF, 0xFF, 0xFF, 0xFF, 0xFF, 0xFF, 0xFD],
                     is_extended_id = False\<rparr>;
              (ok, b') = try_send b msg
          in (ok, Some b'))"

definition zero_position :: "bus option \<Rightarrow> bool \<times> bus option" where
  "zero_position bus =
     (case bus of None \<Rightarrow> (False, None)
      | Some b \<Rightarrow>
          let msg = \<lparr>arbitration_id = CONTROLLER_ID,
                     data = [0xFF, 0xFF, 0xFF, 0xFF, 0xFF, 0xFF, 0xFF, 0xFE],
                     is_extended_id = False\<rparr>;
              (ok, b') = try_send b msg
          in (ok, Some b'))"

subsection \<open>The command frame\<close>

definition constrain :: "pyfloat \<Rightarrow> pyfloat \<Rightarrow> pyfloat \<Rightarrow> pyfloat" where
  \<comment> \<open>\<open>max(min(x, hi), lo)\<close>, the expression of lines 93 to 97\<close>
  "constrain x lo hi = py_max (py_min x hi) lo"

definition byte_store :: "int \<Rightarrow> py_error + 8 word" where
  \<comment> \<open>an item assignment to a bytearray raises unless the value is in \<open>range(256)\<close>\<close>
  "byte_store n = (if 0 \<le> n \<and> n < 256 then Inr (word_of_int n) else Inl ValueError)"

definition pack_cmd_buf :: "motor_state \<Rightarrow> py_error + 8 word list" where
  \<comment> \<open>lines 92 to 115 of \<open>pack_cmd\<close>: constrain, convert, pack; they write local variables
      only, and nothing guards them\<close>
  "pack_cmd_buf motor_state =
     (let p_des = constrain (p_in motor_state) P_MIN P_MAX;
          v_des = constrain (v_in motor_state) V_MIN V_MAX;
          kp = constrain (kp_in motor_state) KP_MIN KP_MAX;
          kd = constrain (kd_in motor_state) KD_MIN KD_MAX;
          t_ff = constrain (t_in motor_state) T_MIN T_MAX
      in
      bind_err (float_to_uint p_des P_MIN P_MAX 16) (\<lambda>p_int.
      bind_err (float_to_uint v_des V_MIN V_MAX 12) (\<lambda>v_int.
      bind_err (float_to_uint kp KP_MIN KP_MAX 12) (\<lambda>kp_int.
      bind_err (float_to_uint kd KD_MIN KD_MAX 12) (\<lambda>kd_int.
      bind_err (float_to_uint t_ff T_MIN T_MAX 12) (\<lambda>t_int.
      bind_err (byte_store (drop_bit 8 p_int)) (\<lambda>b0.
      bind_err (byte_store (p_int AND 0xFF)) (\<lambda>b1.
      bind_err (byte_store (drop_bit 4 v_int)) (\<lambda>b2.
      bind_err (byte_store (push_bit 4 (v_int AND 0xF) OR drop_bit 8 kp_int)) (\<lambda>b3.
      bind_err (byte_store (kp_int AND 0xFF)) (\<lambda>b4.
      bind_err (byte_store (drop_bit 4 kd_int)) (\<lambda>b5.
      bind_err (byte_store (push_bit 4 (kd_int AND 0xF) OR drop_bit 8 t_int)) (\<lambda>b6.
      bind_err (byte_store (t_int AND 0xFF)) (\<lambda>b7.
      Inr [b0, b1, b2, b3, b4, b5, b6, b7]))))))))))))))"

definition pack_cmd ::
  "bus option \<Rightarrow> motor_state \<Rightarrow> (py_error + bool) \<times> bus option \<times> motor_state" where
  \<comment> \<open>how the call ends (\<open>Inl\<close>: an exception leaves it, \<open>Inr\<close>: the value returned), and the
      bus and the motor state after it\<close>
  "pack_cmd bus motor_state =
     (case bus of None \<Rightarrow> (Inr False, None, motor_state)
      | Some b \<Rightarrow>
          (case pack_cmd_buf motor_state of
             Inl e \<Rightarrow> (Inl e, Some b, motor_state)
           | Inr buf \<Rightarrow>
               let msg = \<lparr>arbitration_id = CONTROLLER_ID, data = buf, is_extended_id = False\<rparr>;
                   (ok, b') = try_send b msg
               in (Inr ok, Some b', motor_state)))"

subsection \<open>The reply frame\<close>

definition index :: "8 word list \<Rightarrow> nat \<Rightarrow> py_error + int" where
  \<comment> \<open>\<open>buf[i]\<close> on a bytearray: an int in \<open>range(256)\<close>, or IndexError\<close>
  "index buf i = (if i < length buf then Inr (uint (buf ! i)) else Inl IndexError)"

definition unpack_reply_read :: "8 word list \<Rightarrow> py_error + (int \<times> int \<times> int)" where
  \<comment> \<open>lines 134 to 138: the reads, in the order the source evaluates them\<close>
  "unpack_reply_read buf =
     bind_err (index buf 0) (\<lambda>id_received.
     bind_err (index buf 1) (\<lambda>b1.
     bind_err (index buf 2) (\<lambda>b2.
     bind_err (index buf 3) (\<lambda>b3.
     bind_err (index buf 4) (\<lambda>b4.
     bind_err (index buf 4) (\<lambda>b4'.
     bind_err (index buf 5) (\<lambda>b5.
     Inr (push_bit 8 b1 OR b2, push_bit 4 b3 OR drop_bit 4 b4, push_bit 8 (b4' AND 0xF) OR b5))))))))"

definition unpack_reply :: "can_message option \<Rightarrow> motor_state \<Rightarrow> bool \<times> motor_state" where
  \<comment> \<open>the result and the motor state after the call; the bare \<open>except\<close> turns an exception
      of the body into \<open>False\<close>, with the state as the writes before it left it\<close>
  "unpack_reply msg motor_state =
     (case msg of None \<Rightarrow> (False, motor_state)
      | Some m \<Rightarrow>
          (case unpack_reply_read (data m) of
             Inl e \<Rightarrow> (False, motor_state)
           | Inr (p_int, v_int, i_int) \<Rightarrow>
               (case uint_to_float p_int P_MIN P_MAX 16 of
                  Inl e \<Rightarrow> (False, motor_state)
                | Inr p \<Rightarrow>
                    let state1 = motor_state\<lparr>p_out := p\<rparr> in
                    (case uint_to_float v_int V_MIN V_MAX 12 of
                       Inl e \<Rightarrow> (False, state1)
                     | Inr v \<Rightarrow>
                         let state2 = state1\<lparr>v_out := v\<rparr> in
                         (case uint_to_float i_int (fneg T_MAX) T_MAX 12 of
                            Inl e \<Rightarrow> (False, state2)
                          | Inr t \<Rightarrow> (True, state2\<lparr>t_out := t\<rparr>))))))"

section \<open>app.py: the continuous-send scheduler\<close>

text \<open>
  Of the application object the model keeps what \<open>toggle_continuous\<close>, \<open>stop_continuous\<close>
  and \<open>log\<close> read and write: the two scheduler attributes, the interval text box (known by
  its text), the button (its text and colour) and the log label (its text); and, outside
  the object, the events the Kivy clock has scheduled (an event is known by its interval)
  and the lines printed.  An attribute that has not been assigned is \<open>None\<close>, and reading
  it raises AttributeError: \<open>__init__\<close> assigns none of the five, \<open>build\<close> all of them.
  A function returns the exception that left it, if any, and the state at that moment.
  The builtin \<open>float\<close> that parses the text box is a parameter: \<open>None\<close> is its ValueError.
\<close>

record clock_event =
  timeout :: pyfloat

datatype log_message = Started_continuous pyfloat | Stopped_continuous | Invalid_interval

datatype label_text = Log_ready | Log log_message

record button =
  button_text :: string
  button_background_color :: "pyfloat \<times> pyfloat \<times> pyfloat \<times> pyfloat"

record app =
  continuous_active :: "bool option"
  continuous_event :: "clock_event option option"
  continuous_checkbox :: "string option"
  continuous_button :: "button option"
  log_label :: "label_text option"
  clock :: "clock_event list"
  printed :: "log_message list"

definition MotorControlApp :: app where
  \<comment> \<open>the object after \<open>__init__\<close>\<close>
  "MotorControlApp = \<lparr>continuous_active = None, continuous_event = None,
                      continuous_checkbox = None, continuous_button = None, log_label = None,
                      clock = [], printed = []\<rparr>"

definition build :: "app \<Rightarrow> app" where
  \<comment> \<open>of \<open>build\<close>, the assignments to the five attributes (lines 153 to 208)\<close>
  "build s = s\<lparr>log_label := Some Log_ready,
              continuous_checkbox := Some ''0.1'',
              continuous_button := Some \<lparr>button_text = ''Start Continuous'',
                                         button_background_color =
                                           (Finite 1, Finite 1, Finite 1, Finite 1)\<rparr>,
              continuous_active := Some False,
              continuous_event := Some None\<rparr>"

definition log_app :: "app \<Rightarrow> log_message \<Rightarrow> py_error option \<times> app" where
  \<comment> \<open>the method \<open>log\<close>: set the label's text, then print\<close>
  "log_app s message =
     (case log_label s of
        None \<Rightarrow> (Some AttributeError, s)
      | Some l \<Rightarrow> (None, s\<lparr>log_label := Some (Log message), printed := printed s @ [message]\<rparr>))"

definition stop_continuous :: "app \<Rightarrow> py_error option \<times> app" where
  "stop_continuous s =
     (case continuous_active s of
        None \<Rightarrow> (Some AttributeError, s)
      | Some False \<Rightarrow> (None, s)
      | Some True \<Rightarrow>
          (case continuous_event s of
             None \<Rightarrow> (Some AttributeError, s)
           | Some event \<Rightarrow>
               let s1 = (case event of
                           Some ev \<Rightarrow> s\<lparr>clock := remove1 ev (clock s),
                                         continuous_event := Some None\<rparr>
                         | None \<Rightarrow> s);
                   s2 = s1\<lparr>continuous_active := Some False\<rparr>
               in (case continuous_button s2 of
                     None \<Rightarrow> (Some AttributeError, s2)
                   | Some b \<Rightarrow>
                       log_app
                         (s2\<lparr>continuous_button := Some
                               (b\<lparr>button_text := ''Start Continuous'',
                                  button_background_color :=
                                    (round64 (2 / 10), round64 (7 / 10), round64 (2 / 10),
                                     Finite 1)\<rparr>)\<rparr>)
                         Stopped_continuous)))"

definition toggle_continuous :: "(string \<Rightarrow> pyfloat option) \<Rightarrow> app \<Rightarrow> py_error option \<times> app" where
  \<comment> \<open>the literal \<open>0.01\<close> is the binary64 value nearest to one hundredth; only the
      ValueError of \<open>float\<close> is caught\<close>
  "toggle_continuous float_of_text s =
     (case continuous_active s of
        None \<Rightarrow> (Some AttributeError, s)
      | Some True \<Rightarrow> stop_continuous s
      | Some False \<Rightarrow>
          (case continuous_checkbox s of
             None \<Rightarrow> (Some AttributeError, s)
           | Some box_text \<Rightarrow>
               (case float_of_text box_text of
                  None \<Rightarrow> log_app s Invalid_interval
                | Some parsed \<Rightarrow>
                    let interval = (if py_lt parsed (round64 (1 / 100)) then round64 (1 / 100)
                                    else parsed);
                        s1 = s\<lparr>continuous_active := Some True\<rparr>
                    in (case continuous_button s1 of
                          None \<Rightarrow> (Some AttributeError, s1)
                        | Some b \<Rightarrow>
                            let ev = \<lparr>timeout = interval\<rparr> in
                            log_app
                              (s1\<lparr>continuous_button := Some
                                    (b\<lparr>button_text := ''Stop Continuous'',
                                       button_background_color :=
                                         (round64 (7 / 10), round64 (2 / 10), round64 (2 / 10),
                                          Finite 1)\<rparr>),
                                  continuous_event := Some (Some ev),
                                  clock := clock s1 @ [ev]\<rparr>)
                              (Started_continuous interval)))))"

section \<open>Values used in the statements\<close>

fun py_le :: "pyfloat \<Rightarrow> pyfloat \<Rightarrow> bool" where
  \<comment> \<open>\<open>a <= b\<close> on floats\<close>
  "py_le (Finite x) (Finite y) = (x \<le> y)"
| "py_le NaN b = False"
| "py_le a NaN = False"
| "py_le NegInf b = True"
| "py_le a PosInf = True"
| "py_le a b = False"

definition mode_frame :: "8 word \<Rightarrow> can_message" where
  \<comment> \<open>the frame a mode command is expected to build, with last byte \<open>x\<close>\<close>
  "mode_frame x = \<lparr>arbitration_id = 0x17,
                   data = [0xFF, 0xFF, 0xFF, 0xFF, 0xFF, 0xFF, 0xFF, x],
                   is_extended_id = False\<rparr>"

definition reply :: "8 word list \<Rightarrow> can_message" where
  \<comment> \<open>a received frame with the given data\<close>
  "reply buf = \<lparr>arbitration_id = 0x17, data = buf, is_extended_id = False\<rparr>"

definition channels :: "(pyfloat \<times> pyfloat) list" where
  \<comment> \<open>the range table of constants.py: one pair of limits for each channel\<close>
  "channels = [(P_MIN, P_MAX), (V_MIN, V_MAX), (KP_MIN, KP_MAX), (KD_MIN, KD_MAX), (T_MIN, T_MAX)]"

definition golden :: motor_state where
  \<comment> \<open>the setpoints of \<open>test_pack_cmd\<close>\<close>
  "golden = MotorState\<lparr>p_in := Finite 5, v_in := Finite 2, kp_in := Finite 100,
                        kd_in := Finite 2, t_in := Finite 10\<rparr>"

definition idle_bus :: bus where
  \<comment> \<open>a bus that has been handed nothing and whose send succeeds\<close>
  "idle_bus = \<lparr>sent = [], send_raises = False\<rparr>"

definition midpoint_reply :: can_message where
  \<comment> \<open>a reply whose three raw fields are the middle of their ranges\<close>
  "midpoint_reply = reply [0x17, 0x80, 0x00, 0x80, 0x08, 0x00]"

definition test_reply :: can_message where
  \<comment> \<open>the data of \<open>test_unpack_reply\<close>\<close>
  "test_reply = reply [0x00, 0x80, 0x00, 0x08, 0x00, 0x08, 0x00, 0x00]"

definition roundtrip_x :: rat where
  \<comment> \<open>the binary64 value that Python prints as -3.873992673992674\<close>
  "roundtrip_x = - (8723455981514719 / 2251799813685248)"

definition tested_app :: app where
  \<comment> \<open>the object of \<open>test_continuous_control\<close>: constructed, never built, with the widgets
      the test puts in\<close>
  "tested_app = MotorControlApp
     \<lparr>continuous_checkbox := Some ''0.1'',
      continuous_button := Some \<lparr>button_text = '''',
                                 button_background_color =
                                   (Finite 1, Finite 1, Finite 1, Finite 1)\<rparr>,
      log_label := Some Log_ready\<rparr>"

section \<open>Basic facts\<close>

lemmas constants_defs =
  P_MIN_def P_MAX_def V_MIN_def V_MAX_def KP_MIN_def KP_MAX_def KD_MIN_def KD_MAX_def
  T_MIN_def T_MAX_def CONTROLLER_ID_def

lemma bind_err_simps [simp]:
  "bind_err (Inl e) f = Inl e"
  "bind_err (Inr v) f = f v"
  by (simp_all add: bind_err_def)

lemma index_simps:
  "i < length buf \<Longrightarrow> index buf i = Inr (uint (buf ! i))"
  "length buf \<le> i \<Longrightarrow> index buf i = Inl IndexError"
  by (simp_all add: index_def)

section \<open>Rounding to binary64\<close>

lemma rne_of_int: "rne (of_int n) = n"
  by (simp add: rne_def)

lemma rne_bounds: "\<lfloor>x\<rfloor> \<le> rne x" "rne x \<le> \<lfloor>x\<rfloor> + 1"
  by (simp_all add: rne_def Let_def)

lemma rne_err: "\<bar>of_int (rne x) - x\<bar> \<le> 1 / 2"
proof -
  show ?thesis
    by (auto simp: rne_def Let_def abs_if; linarith)
qed

lemma rne_mono:
  assumes "x \<le> y"
  shows "rne x \<le> rne y"
proof (cases "\<lfloor>x\<rfloor> < \<lfloor>y\<rfloor>")
  case True
  have "rne x \<le> \<lfloor>x\<rfloor> + 1" by (rule rne_bounds)
  also have "\<dots> \<le> \<lfloor>y\<rfloor>" using True by simp
  also have "\<dots> \<le> rne y" by (rule rne_bounds)
  finally show ?thesis .
next
  case False
  moreover have "\<lfloor>x\<rfloor> \<le> \<lfloor>y\<rfloor>" using assms by (rule floor_mono)
  ultimately have eq: "\<lfloor>x\<rfloor> = \<lfloor>y\<rfloor>" by simp
  show ?thesis
    using assms by (auto simp: rne_def Let_def eq)
qed

lemma rne_minus: "rne (- x) = - rne x"
proof (cases "x = of_int \<lfloor>x\<rfloor>")
  case True
  then obtain n where "x = of_int n" ..
  then have "- x = of_int (- n)" by simp
  then show ?thesis
    using rne_of_int \<open>x = of_int n\<close> by metis
next
  case False
  have fl: "of_int \<lfloor>x\<rfloor> < x" "x < of_int \<lfloor>x\<rfloor> + 1"
    using False by linarith+
  have "\<lfloor>- x\<rfloor> = - \<lfloor>x\<rfloor> - 1"
    using fl by (intro floor_unique) auto
  then show ?thesis
    using fl by (auto simp: rne_def Let_def)
qed


lemma bitlen_powi:
  assumes "0 < n"
  shows "2 powi (bitlen n - 1) \<le> (of_int n :: rat)" "(of_int n :: rat) < 2 powi bitlen n"
proof -
  have b: "2 ^ nat (bitlen n - 1) \<le> n" "n < 2 ^ nat (bitlen n)"
    using bitlen_bounds [OF assms] by simp_all
  have pos: "1 \<le> bitlen n"
    using assms bitlen_eq_zero_iff [of n] bitlen_nonneg [of n] by linarith
  have "(of_int (2 ^ nat (bitlen n - 1)) :: rat) \<le> of_int n"
    using b(1) by (simp only: of_int_le_iff)
  moreover have "(2::rat) powi (bitlen n - 1) = 2 ^ nat (bitlen n - 1)"
    using pos by (simp add: power_int_def)
  ultimately show "2 powi (bitlen n - 1) \<le> (of_int n :: rat)" by simp
  have "(of_int n :: rat) < of_int (2 ^ nat (bitlen n))"
    using b(2) by (simp only: of_int_less_iff)
  moreover have "(2::rat) powi (bitlen n) = 2 ^ nat (bitlen n)"
    using pos by (simp add: power_int_def)
  ultimately show "(of_int n :: rat) < 2 powi bitlen n" by simp
qed

lemma binade_bounds:
  assumes "q \<noteq> 0"
  shows "2 powi (binade q) \<le> \<bar>q\<bar>" "\<bar>q\<bar> < 2 powi (binade q + 1)"
proof -
  obtain a b where ab: "quotient_of \<bar>q\<bar> = (a, b)" by (cases "quotient_of \<bar>q\<bar>")
  have b: "0 < b" using ab by (rule quotient_of_denom_pos)
  have q: "\<bar>q\<bar> = of_int a / of_int b" using ab by (rule quotient_of_div)
  have a: "0 < a"
  proof -
    have "0 < \<bar>q\<bar>" using assms by simp
    then have "0 < (of_int a :: rat) / of_int b" using q by simp
    then show ?thesis using b by (simp add: zero_less_divide_iff)
  qed
  define e0 where "e0 = bitlen a - bitlen b"
  have up: "\<bar>q\<bar> < 2 powi (e0 + 1)"
  proof -
    have "of_int a / of_int b < (2::rat) powi bitlen a / 2 powi (bitlen b - 1)"
      using bitlen_powi [OF a] bitlen_powi [OF b] a b
      by (intro frac_less) (auto intro: zero_less_power_int)
    also have "\<dots> = 2 powi (e0 + 1)"
      by (simp add: e0_def power_int_diff [symmetric] algebra_simps)
    finally show ?thesis using q by simp
  qed
  have lo: "2 powi (e0 - 1) \<le> \<bar>q\<bar>"
  proof -
    have "(2::rat) powi (bitlen a - 1) / 2 powi bitlen b \<le> of_int a / of_int b"
      using bitlen_powi [OF a] bitlen_powi [OF b] a b
      by (intro frac_le) (auto intro: zero_less_power_int less_imp_le)
    moreover have "(2::rat) powi (bitlen a - 1) / 2 powi bitlen b = 2 powi (e0 - 1)"
      by (simp add: e0_def power_int_diff [symmetric] algebra_simps)
    ultimately show ?thesis using q by simp
  qed
  have bin: "binade q = (if 2 powi e0 \<le> \<bar>q\<bar> then e0 else e0 - 1)"
    by (simp add: binade_def ab e0_def Let_def)
  show "2 powi (binade q) \<le> \<bar>q\<bar>" using lo by (simp add: bin)
  show "\<bar>q\<bar> < 2 powi (binade q + 1)" using up by (auto simp: bin)
qed

lemma powi2_less_cancel:
  assumes "(2::rat) powi a < 2 powi b"
  shows "a < b"
proof (rule ccontr)
  assume "\<not> a < b"
  then have "(2::rat) powi b \<le> 2 powi a"
    by (intro power_int_increasing) simp_all
  then show False using assms by simp
qed

lemma binade_unique:
  assumes "2 powi e \<le> \<bar>q\<bar>" "\<bar>q\<bar> < 2 powi (e + 1)"
  shows "binade q = e"
proof -
  have "0 < (2::rat) powi e" by (rule zero_less_power_int) simp
  then have "0 < \<bar>q\<bar>" using assms(1) by linarith
  then have q: "q \<noteq> 0" by simp
  have "(2::rat) powi e < 2 powi (binade q + 1)"
    using assms(1) binade_bounds(2) [OF q] by simp
  then have 1: "e < binade q + 1"
    by (rule powi2_less_cancel)
  have "(2::rat) powi binade q < 2 powi (e + 1)"
    using assms(2) binade_bounds(1) [OF q] by simp
  then have 2: "binade q < e + 1"
    by (rule powi2_less_cancel)
  from 1 2 show ?thesis by simp
qed

lemma binade_minus: "binade (- q) = binade q"
  by (simp add: binade_def)


lemma fl_zero: "fl 0 = 0"
  by (simp add: fl_def)

lemma fl_unfold:
  assumes "x \<noteq> 0"
  shows "fl x = of_int (rne (x / 2 powi (max (binade x) (- 1022) - 52)))
                * 2 powi (max (binade x) (- 1022) - 52)"
  using assms by (simp add: fl_def Let_def)

lemma fl_minus: "fl (- x) = - fl x"
  by (cases "x = 0") (simp_all add: fl_def Let_def binade_minus rne_minus)

lemma fl_err_exp:
  assumes "x \<noteq> 0"
  shows "\<bar>fl x - x\<bar> \<le> 2 powi (max (binade x) (- 1022) - 53)"
proof -
  define e where "e = max (binade x) (- 1022) - 52"
  have p: "0 < (2::rat) powi e" by (rule zero_less_power_int) simp
  have "fl x - x = (of_int (rne (x / 2 powi e)) - x / 2 powi e) * 2 powi e"
    using p by (simp add: fl_unfold [OF assms] e_def [symmetric] field_simps)
  then have "\<bar>fl x - x\<bar> = \<bar>of_int (rne (x / 2 powi e)) - x / 2 powi e\<bar> * 2 powi e"
    using p by (simp add: abs_mult)
  also have "\<dots> \<le> 1 / 2 * 2 powi e"
    using p rne_err [of "x / 2 powi e"] by (intro mult_right_mono) simp_all
  also have "\<dots> = 2 powi (e - 1)"
    by (simp add: power_int_diff)
  finally show ?thesis by (simp add: e_def)
qed

lemma fl_err:
  assumes "\<bar>x\<bar> \<le> B" "2 powi (- 1022) \<le> B"
  shows "\<bar>fl x - x\<bar> \<le> B / 2 ^ 53"
proof (cases "x = 0")
  case True
  have "0 < (2::rat) powi (- 1022)" by (rule zero_less_power_int) simp
  then have "0 \<le> B" using assms(2) by linarith
  then show ?thesis using True by (simp add: fl_zero)
next
  case False
  define E where "E = max (binade x) (- 1022)"
  have "(2::rat) powi E \<le> B"
  proof (cases "binade x \<le> - 1022")
    case True
    then have "E = - 1022" by (simp add: E_def)
    then show ?thesis using assms(2) by simp
  next
    case False
    then have "E = binade x" by (simp add: E_def)
    then show ?thesis using binade_bounds(1) [OF \<open>x \<noteq> 0\<close>] assms(1) by simp
  qed
  moreover have "\<bar>fl x - x\<bar> \<le> 2 powi (E - 53)"
    using fl_err_exp [OF False] by (simp add: E_def)
  moreover have "(2::rat) powi (E - 53) = 2 powi E / 2 ^ 53"
    by (simp add: power_int_diff)
  ultimately show ?thesis
    by (simp add: divide_right_mono order_trans)
qed

lemma fl_exact:
  assumes "\<bar>m\<bar> < 2 ^ 53" "- 1074 \<le> k"
  shows "fl (of_int m * 2 powi k) = of_int m * 2 powi k"
proof (cases "m = 0")
  case True
  then show ?thesis by (simp add: fl_zero)
next
  case False
  define x :: rat where "x = of_int m * 2 powi k"
  have pk: "0 < (2::rat) powi k" by (rule zero_less_power_int) simp
  have x0: "x \<noteq> 0" using False pk by (simp add: x_def)
  define e where "e = max (binade x) (- 1022) - 52"
  have "\<bar>x\<bar> = of_int \<bar>m\<bar> * 2 powi k"
    using pk by (simp add: x_def abs_mult)
  also have "\<dots> < of_int (2 ^ 53) * 2 powi k"
    using assms(1) pk by (intro mult_strict_right_mono) (simp_all only: of_int_less_iff)
  also have "\<dots> = 2 powi (53 + k)"
    by (simp add: power_int_add)
  finally have "\<bar>x\<bar> < 2 powi (53 + k)" .
  then have "(2::rat) powi binade x < 2 powi (53 + k)"
    using binade_bounds(1) [OF x0] by linarith
  then have "binade x < 53 + k"
    by (rule powi2_less_cancel)
  then have ek: "e \<le> k" using assms(2) by (simp add: e_def)
  define n where "n = nat (k - e)"
  have "x / 2 powi e = of_int m * 2 powi (k - e)"
    by (simp add: x_def power_int_diff)
  also have "(2::rat) powi (k - e) = 2 ^ n"
    using ek by (simp add: n_def power_int_def)
  finally have z: "x / 2 powi e = of_int (m * 2 ^ n)" by simp
  have "fl x = of_int (rne (x / 2 powi e)) * 2 powi e"
    using fl_unfold [OF x0] by (simp add: e_def)
  also have "\<dots> = x / 2 powi e * 2 powi e"
    by (simp only: z rne_of_int)
  also have "\<dots> = x" by simp
  finally show ?thesis by (simp add: x_def)
qed

lemma fl_of_int:
  assumes "\<bar>m\<bar> < 2 ^ 53"
  shows "fl (of_int m) = of_int m"
  using fl_exact [OF assms, of 0] by simp


lemma fl_nonneg:
  assumes "0 \<le> x"
  shows "0 \<le> fl x"
proof (cases "x = 0")
  case True
  then show ?thesis by (simp add: fl_zero)
next
  case False
  define e where "e = max (binade x) (- 1022) - 52"
  have p: "0 < (2::rat) powi e" by (rule zero_less_power_int) simp
  have "0 \<le> x / 2 powi e" using assms p by simp
  then have "rne 0 \<le> rne (x / 2 powi e)" by (rule rne_mono)
  then have "0 \<le> rne (x / 2 powi e)" using rne_of_int [of 0] by simp
  then show ?thesis
    using p by (simp add: fl_unfold [OF False] e_def [symmetric])
qed

lemma binade_mono:
  assumes "0 < x" "x \<le> y"
  shows "binade x \<le> binade y"
proof (rule ccontr)
  assume "\<not> binade x \<le> binade y"
  then have "binade y + 1 \<le> binade x" by simp
  then have "(2::rat) powi (binade y + 1) \<le> 2 powi binade x"
    by (intro power_int_increasing) simp_all
  moreover have "\<bar>y\<bar> < 2 powi (binade y + 1)"
    using assms by (intro binade_bounds) simp
  moreover have "2 powi binade x \<le> \<bar>x\<bar>"
    using assms by (intro binade_bounds) simp
  ultimately show False using assms by simp
qed

lemma fl_upper:
  assumes "0 < x"
  shows "fl x \<le> 2 powi (max (binade x) (- 1022) + 1)"
proof -
  define E where "E = max (binade x) (- 1022)"
  have x0: "x \<noteq> 0" using assms by simp
  have p: "0 < (2::rat) powi (E - 52)" by (rule zero_less_power_int) simp
  have "x < 2 powi (binade x + 1)"
    using binade_bounds(2) [OF x0] assms by simp
  also have "\<dots> \<le> 2 powi (E + 1)"
    by (intro power_int_increasing) (simp_all add: E_def)
  finally have "x / 2 powi (E - 52) \<le> 2 powi (E + 1) / 2 powi (E - 52)"
    using p by (simp add: divide_right_mono)
  also have "\<dots> = of_int (2 ^ 53)"
    by (simp add: power_int_diff [symmetric])
  finally have "rne (x / 2 powi (E - 52)) \<le> rne (of_int (2 ^ 53))"
    by (rule rne_mono)
  then have "rne (x / 2 powi (E - 52)) \<le> 2 ^ 53"
    by (simp only: rne_of_int)
  then have "(of_int (rne (x / 2 powi (E - 52))) :: rat) \<le> of_int (2 ^ 53)"
    by (simp only: of_int_le_iff)
  then have "fl x \<le> of_int (2 ^ 53) * 2 powi (E - 52)"
    using p by (simp add: fl_unfold [OF x0] E_def [symmetric] mult_right_mono)
  also have "\<dots> = 2 powi (E + 1)"
    by (simp add: power_int_diff power_int_add)
  finally show ?thesis by (simp add: E_def)
qed

lemma fl_lower:
  assumes "0 < x" "- 1022 \<le> binade x"
  shows "2 powi binade x \<le> fl x"
proof -
  define E where "E = binade x"
  have x0: "x \<noteq> 0" using assms by simp
  have m: "max (binade x) (- 1022) = E" using assms(2) by (simp add: E_def)
  have p: "0 < (2::rat) powi (E - 52)" by (rule zero_less_power_int) simp
  have "2 powi E \<le> x"
    using binade_bounds(1) [OF x0] assms by (simp add: E_def)
  then have "2 powi E / 2 powi (E - 52) \<le> x / 2 powi (E - 52)"
    using p by (simp add: divide_right_mono)
  moreover have "(2::rat) powi E / 2 powi (E - 52) = of_int (2 ^ 52)"
    by (simp add: power_int_diff [symmetric])
  ultimately have "rne (of_int (2 ^ 52)) \<le> rne (x / 2 powi (E - 52))"
    by (intro rne_mono) simp
  then have "2 ^ 52 \<le> rne (x / 2 powi (E - 52))"
    by (simp only: rne_of_int)
  then have "(of_int (2 ^ 52) :: rat) \<le> of_int (rne (x / 2 powi (E - 52)))"
    by (simp only: of_int_le_iff)
  then have "of_int (2 ^ 52) * 2 powi (E - 52) \<le> fl x"
    using p by (simp add: fl_unfold [OF x0] m mult_right_mono)
  moreover have "of_int (2 ^ 52) * 2 powi (E - 52) = (2::rat) powi E"
    by (simp add: power_int_diff)
  ultimately show ?thesis by (simp add: E_def)
qed

lemma fl_mono_pos:
  assumes "0 < x" "x \<le> y"
  shows "fl x \<le> fl y"
proof -
  define Ex where "Ex = max (binade x) (- 1022)"
  define Ey where "Ey = max (binade y) (- 1022)"
  have x0: "x \<noteq> 0" and y0: "y \<noteq> 0" and ypos: "0 < y" using assms by simp_all
  have le: "Ex \<le> Ey"
    using binade_mono [OF assms] by (simp add: Ex_def Ey_def)
  show ?thesis
  proof (cases "Ex = Ey")
    case True
    have p: "0 < (2::rat) powi (Ey - 52)" by (rule zero_less_power_int) simp
    have "x / 2 powi (Ey - 52) \<le> y / 2 powi (Ey - 52)"
      using assms(2) p by (simp add: divide_right_mono)
    then have "rne (x / 2 powi (Ey - 52)) \<le> rne (y / 2 powi (Ey - 52))"
      by (rule rne_mono)
    then have "(of_int (rne (x / 2 powi (Ey - 52))) :: rat) \<le> of_int (rne (y / 2 powi (Ey - 52)))"
      by (simp only: of_int_le_iff)
    then show ?thesis
      using p True
      by (simp add: fl_unfold [OF x0] fl_unfold [OF y0] Ex_def [symmetric] Ey_def [symmetric]
          mult_right_mono)
  next
    case False
    then have lt: "Ex + 1 \<le> Ey" using le by simp
    then have biny: "Ey = binade y" "- 1022 \<le> binade y"
      by (simp_all add: Ex_def Ey_def)
    have "fl x \<le> 2 powi (Ex + 1)"
      using fl_upper [OF assms(1)] by (simp add: Ex_def)
    also have "\<dots> \<le> 2 powi Ey"
      using lt by (intro power_int_increasing) simp_all
    also have "\<dots> \<le> fl y"
      using fl_lower [OF ypos biny(2)] by (simp add: biny(1))
    finally show ?thesis .
  qed
qed

lemma fl_mono:
  assumes "x \<le> y"
  shows "fl x \<le> fl y"
proof -
  consider "0 < x" | "x \<le> 0" "0 \<le> y" | "y < 0" by linarith
  then show ?thesis
  proof cases
    case 1
    then show ?thesis using assms by (rule fl_mono_pos)
  next
    case 2
    have "0 \<le> fl (- x)" using 2(1) by (intro fl_nonneg) simp
    then have "fl x \<le> 0" by (simp add: fl_minus)
    also have "0 \<le> fl y" using 2(2) by (rule fl_nonneg)
    finally show ?thesis .
  next
    case 3
    have "fl (- y) \<le> fl (- x)"
      using 3 assms by (intro fl_mono_pos) simp_all
    then show ?thesis by (simp add: fl_minus)
  qed
qed

section \<open>Mode commands: the three frames\<close>

text \<open>
  C8.  Each of the three mode-control operations builds the 8-byte frame whose first seven
  bytes are 0xFF, addressed to 0x17 as a standard frame, with last byte 0xFC (enter mode),
  0xFD (exit mode) and 0xFE (zero position): on a bus whose send succeeds exactly that frame
  is appended to what the bus was handed and the result is True, on a bus whose send raises
  the result is False and nothing is sent, and without a bus the result is False.
\<close>

theorem mode_commands_frames:
  "enter_mode (Some b) =
     (if send_raises b then (False, Some b)
      else (True, Some (b\<lparr>sent := sent b @ [mode_frame 0xFC]\<rparr>)))
   \<and> exit_mode (Some b) =
     (if send_raises b then (False, Some b)
      else (True, Some (b\<lparr>sent := sent b @ [mode_frame 0xFD]\<rparr>)))
   \<and> zero_position (Some b) =
     (if send_raises b then (False, Some b)
      else (True, Some (b\<lparr>sent := sent b @ [mode_frame 0xFE]\<rparr>)))
   \<and> data (mode_frame 0xFC) = [0xFF, 0xFF, 0xFF, 0xFF, 0xFF, 0xFF, 0xFF, 0xFC]
   \<and> length (data (mode_frame x)) = 8
   \<and> take 7 (data (mode_frame x)) = replicate 7 0xFF
   \<and> arbitration_id (mode_frame x) = 0x17
   \<and> \<not> is_extended_id (mode_frame x)
   \<and> enter_mode None = (False, None) \<and> exit_mode None = (False, None)
   \<and> zero_position None = (False, None)"
  by (simp add: enter_mode_def exit_mode_def zero_position_def try_send_def bus_send_def
      mode_frame_def CONTROLLER_ID_def numeral_eq_Suc)

section \<open>Floats: finite results, comparisons\<close>

lemma fl_numeral:
  assumes "(numeral k :: int) < 2 ^ 53"
  shows "fl (numeral k) = numeral k"
  using fl_of_int [of "numeral k"] assms by simp

lemma fl_pow2:
  assumes "n \<le> 1023"
  shows "fl (2 ^ n) = 2 ^ n"
  using fl_exact [of 1 "int n"] assms by (simp add: power_int_def)

lemma fl_abs_le:
  assumes "\<bar>x\<bar> \<le> B" "fl B = B"
  shows "\<bar>fl x\<bar> \<le> B"
proof -
  have "fl x \<le> fl B" using assms(1) by (intro fl_mono) simp
  moreover have "fl (- B) \<le> fl x" using assms(1) by (intro fl_mono) simp
  ultimately show ?thesis using assms(2) by (simp add: fl_minus abs_le_iff)
qed

lemma round64_finite:
  assumes "\<bar>x\<bar> \<le> 2 ^ 1023"
  shows "round64 x = Finite (fl x)"
proof (cases "fl x = 0")
  case True
  then show ?thesis by (simp add: round64_def)
next
  case False
  have "\<bar>fl x\<bar> \<le> 2 ^ 1023"
    using assms by (rule fl_abs_le) (rule fl_pow2, simp)
  then have "2 powi binade (fl x) \<le> (2::rat) ^ 1023"
    using binade_bounds(1) [OF False] by linarith
  also have "(2::rat) ^ 1023 < 2 powi 1024" by simp
  finally have "binade (fl x) < 1024" by (rule powi2_less_cancel)
  then show ?thesis by (simp add: round64_def Let_def)
qed

lemma round64_small:
  assumes "\<bar>x\<bar> \<le> 2 ^ 64"
  shows "round64 x = Finite (fl x)"
proof -
  have "(2::rat) ^ 64 \<le> 2 ^ 1023" by simp
  then show ?thesis using assms by (intro round64_finite) linarith
qed

lemma fl_small:
  assumes "\<bar>x\<bar> \<le> 2 ^ n" "n \<le> 1023"
  shows "\<bar>fl x\<bar> \<le> 2 ^ n"
  using assms(1) by (rule fl_abs_le) (rule fl_pow2, rule assms(2))

lemma fsub_Finite: "fsub (Finite a) (Finite b) = round64 (a - b)"
  by (simp add: fsub_def)

lemma py_lt_irrefl: "\<not> py_lt a a"
  by (cases a) simp_all

lemma py_lt_asym: "py_lt a b \<Longrightarrow> \<not> py_lt b a"
  by (cases a; cases b) simp_all

lemma py_lt_trans: "py_lt a b \<Longrightarrow> py_lt b c \<Longrightarrow> py_lt a c"
  by (cases a; cases b; cases c) simp_all

lemma constrain_NaN: "constrain NaN lo hi = NaN"
  by (cases lo; cases hi) (simp_all add: constrain_def py_min_def py_max_def)

lemma constrain_Finite:
  assumes "l \<le> h" "x \<noteq> NaN"
  shows "\<exists>c. constrain x (Finite l) (Finite h) = Finite c \<and> l \<le> c \<and> c \<le> h"
  using assms by (cases x) (auto simp: constrain_def py_min_def py_max_def)

lemma constrain_above:
  assumes "py_lt lo hi" "py_lt hi v"
  shows "constrain v lo hi = hi"
  using assms py_lt_asym [of lo hi] by (simp add: constrain_def py_min_def py_max_def)

lemma constrain_below:
  assumes "py_lt lo hi" "py_lt v lo"
  shows "constrain v lo hi = lo"
  using assms py_lt_trans [of v lo hi] py_lt_asym [of v hi]
  by (simp add: constrain_def py_min_def py_max_def)

lemma constrain_idem:
  assumes "l \<le> h"
  shows "constrain (constrain x (Finite l) (Finite h)) (Finite l) (Finite h)
       = constrain x (Finite l) (Finite h)"
  using assms by (cases x) (auto simp: constrain_def py_min_def py_max_def)


section \<open>The conversions on finite values\<close>

lemma abs_mult_le:
  fixes a b :: rat
  assumes "\<bar>a\<bar> \<le> A" "\<bar>b\<bar> \<le> B"
  shows "\<bar>a * b\<bar> \<le> A * B"
  unfolding abs_mult using assms by (intro mult_mono) simp_all

lemma abs_div_le:
  fixes a s :: rat
  assumes "\<bar>a\<bar> \<le> A" "1 \<le> s"
  shows "\<bar>a / s\<bar> \<le> A"
proof -
  have "\<bar>a / s\<bar> = \<bar>a\<bar> / s" using assms(2) by simp
  also have "\<dots> \<le> \<bar>a\<bar> / 1" using assms(2) by (intro divide_left_mono) simp_all
  finally show ?thesis using assms(1) by simp
qed

lemma quantise_finite:
  assumes x: "\<bar>x - l\<bar> \<le> 2 ^ 20"
    and h: "\<bar>h - l\<bar> \<le> 2 ^ 20" "fl (h - l) = s" "1 \<le> s"
    and N: "\<bar>N\<bar> \<le> 2 ^ 16"
  shows "bind_err (fdiv (fmul (fsub (Finite x) (Finite l)) (Finite N))
                        (fsub (Finite h) (Finite l))) py_int
       = Inr (trunc_zero (fl (fl (fl (x - l) * N) / s)))"
proof -
  have p: "(2::rat) ^ 20 \<le> 2 ^ 64" "(2::rat) ^ 36 \<le> 2 ^ 64" "(2::rat) ^ 20 * 2 ^ 16 = 2 ^ 36"
    by simp_all
  have span: "fsub (Finite h) (Finite l) = Finite s"
    using h p by (simp add: fsub_Finite round64_small)
  define u where "u = fl (x - l)"
  have u: "fsub (Finite x) (Finite l) = Finite u" "\<bar>u\<bar> \<le> 2 ^ 20"
  proof -
    show "fsub (Finite x) (Finite l) = Finite u"
      using x p by (simp add: u_def fsub_Finite round64_small)
    show "\<bar>u\<bar> \<le> 2 ^ 20" unfolding u_def using x by (rule fl_small) simp
  qed
  define w where "w = fl (u * N)"
  have uN: "\<bar>u * N\<bar> \<le> 2 ^ 36"
    using abs_mult_le [OF u(2) N] by (simp only: p)
  have w: "fmul (Finite u) (Finite N) = Finite w" "\<bar>w\<bar> \<le> 2 ^ 36"
  proof -
    show "fmul (Finite u) (Finite N) = Finite w"
      using uN p by (simp add: w_def round64_small)
    show "\<bar>w\<bar> \<le> 2 ^ 36" unfolding w_def using uN by (rule fl_small) simp
  qed
  have ws: "\<bar>w / s\<bar> \<le> 2 ^ 36" using w(2) h(3) by (rule abs_div_le)
  have "s \<noteq> 0" using h(3) by simp
  then have q: "fdiv (Finite w) (Finite s) = Inr (Finite (fl (w / s)))"
    using ws p by (simp add: round64_small)
  show ?thesis
    unfolding span u(1) w(1) q by (simp add: bind_err_def w_def u_def)
qed

lemma float_to_uint_finite:
  assumes "\<bar>x - l\<bar> \<le> 2 ^ 20" "\<bar>h - l\<bar> \<le> 2 ^ 20" "fl (h - l) = s" "1 \<le> s"
  shows "float_to_uint (Finite x) (Finite l) (Finite h) 12
           = Inr (trunc_zero (fl (fl (fl (x - l) * 4095) / s)))"
    "float_to_uint (Finite x) (Finite l) (Finite h) 16
           = Inr (trunc_zero (fl (fl (fl (x - l) * 65535) / s)))"
  using quantise_finite [OF assms, of 4095] quantise_finite [OF assms, of 65535]
  by (simp_all add: float_to_uint_def)

lemma dequantise_finite:
  assumes n: "0 \<le> n" "n \<le> 65535"
    and h: "\<bar>h - l\<bar> \<le> 2 ^ 20" "fl (h - l) = s" "\<bar>l\<bar> \<le> 2 ^ 20"
    and N: "1 \<le> N"
  shows "bind_err (py_float n) (\<lambda>f.
           bind_err (fdiv (fmul f (fsub (Finite h) (Finite l))) (Finite N))
             (\<lambda>q. Inr (fadd q (Finite l))))
       = Inr (Finite (fl (fl (fl (fl (of_int n) * s) / N) + l)))"
proof -
  have p: "(2::rat) ^ 20 \<le> 2 ^ 64" "(2::rat) ^ 36 \<le> 2 ^ 64" "(2::rat) ^ 16 * 2 ^ 20 = 2 ^ 36"
    "(2::rat) ^ 16 \<le> 2 ^ 64" "(2::rat) ^ 37 \<le> 2 ^ 64"
    by simp_all
  have span: "fsub (Finite h) (Finite l) = Finite s" "\<bar>s\<bar> \<le> 2 ^ 20"
  proof -
    show "fsub (Finite h) (Finite l) = Finite s"
      using h p by (simp add: fsub_Finite round64_small)
    have "\<bar>fl (h - l)\<bar> \<le> 2 ^ 20" using h(1) by (rule fl_small) simp
    then show "\<bar>s\<bar> \<le> 2 ^ 20" by (simp only: h(2))
  qed
  have n16: "\<bar>of_int n :: rat\<bar> \<le> 2 ^ 16"
  proof -
    have "(of_int n :: rat) \<le> of_int 65535" using n(2) by (simp only: of_int_le_iff)
    moreover have "0 \<le> (of_int n :: rat)" using n(1) by simp
    ultimately show ?thesis by simp
  qed
  define f where "f = fl (of_int n)"
  have f: "py_float n = Inr (Finite f)" "\<bar>f\<bar> \<le> 2 ^ 16"
  proof -
    show "py_float n = Inr (Finite f)"
      using n16 p by (simp add: f_def py_float_def round64_small)
    show "\<bar>f\<bar> \<le> 2 ^ 16" unfolding f_def using n16 by (rule fl_small) simp
  qed
  define a where "a = fl (f * s)"
  have fs: "\<bar>f * s\<bar> \<le> 2 ^ 36"
    using abs_mult_le [OF f(2) span(2)] by (simp only: p)
  have a: "fmul (Finite f) (Finite s) = Finite a" "\<bar>a\<bar> \<le> 2 ^ 36"
  proof -
    show "fmul (Finite f) (Finite s) = Finite a"
      using fs p by (simp add: a_def round64_small)
    show "\<bar>a\<bar> \<le> 2 ^ 36" unfolding a_def using fs by (rule fl_small) simp
  qed
  define b where "b = fl (a / N)"
  have aN: "\<bar>a / N\<bar> \<le> 2 ^ 36" using a(2) N by (rule abs_div_le)
  have "N \<noteq> 0" using N by simp
  then have b: "fdiv (Finite a) (Finite N) = Inr (Finite b)" "\<bar>b\<bar> \<le> 2 ^ 36"
  proof -
    show "fdiv (Finite a) (Finite N) = Inr (Finite b)" if "N \<noteq> 0"
      using aN p that by (simp add: b_def round64_small)
    show "\<bar>b\<bar> \<le> 2 ^ 36" unfolding b_def using aN by (rule fl_small) simp
  qed
  have "\<bar>b + l\<bar> \<le> 2 ^ 36 + 2 ^ 20" using b(2) h(3) by linarith
  then have "\<bar>b + l\<bar> \<le> 2 ^ 64" by simp
  then have d: "fadd (Finite b) (Finite l) = Finite (fl (b + l))"
    by (simp add: round64_small)
  show ?thesis
    unfolding span(1) f(1) bind_err_simps a(1) b(1) d by (simp add: b_def a_def f_def)
qed

lemma uint_to_float_finite:
  assumes "0 \<le> n" "n \<le> 65535" "\<bar>h - l\<bar> \<le> 2 ^ 20" "fl (h - l) = s" "\<bar>l\<bar> \<le> 2 ^ 20"
  shows "uint_to_float n (Finite l) (Finite h) 12
           = Inr (Finite (fl (fl (fl (fl (of_int n) * s) / 4095) + l)))"
    "uint_to_float n (Finite l) (Finite h) 16
           = Inr (Finite (fl (fl (fl (fl (of_int n) * s) / 65535) + l)))"
  using dequantise_finite [OF assms, of 4095] dequantise_finite [OF assms, of 65535]
  by (simp_all add: uint_to_float_def)

section \<open>The reply decoder\<close>

lemma unpack_reply_read_short:
  assumes "length buf < 6"
  shows "unpack_reply_read buf = Inl IndexError"
proof -
  have "length buf = 0 \<or> length buf = 1 \<or> length buf = 2 \<or> length buf = 3
      \<or> length buf = 4 \<or> length buf = 5"
    using assms by arith
  then show ?thesis
    by (auto simp: unpack_reply_read_def index_def)
qed

lemma unpack_reply_read_long:
  assumes "6 \<le> length buf"
  shows "unpack_reply_read buf =
     Inr (push_bit 8 (uint (buf ! 1)) OR uint (buf ! 2),
          push_bit 4 (uint (buf ! 3)) OR drop_bit 4 (uint (buf ! 4)),
          push_bit 8 (uint (buf ! 4) AND 0xF) OR uint (buf ! 5))"
  using assms by (auto simp: unpack_reply_read_def index_def)

lemma uint8_bounds: "0 \<le> uint (w :: 8 word)" "uint (w :: 8 word) < 256"
  using uint_bounded [of w] by simp_all

lemma raw16_bounds:
  assumes "0 \<le> (a::int)" "a < 256" "0 \<le> (b::int)" "b < 256"
  shows "0 \<le> push_bit 8 a OR b" "push_bit 8 a OR b < 2 ^ 16"
proof -
  show "0 \<le> push_bit 8 a OR b" using assms by simp
  have "push_bit 8 a < 2 ^ 16" using assms by (simp add: push_bit_eq_mult)
  moreover have "b < 2 ^ 16" using assms by simp
  moreover have "0 \<le> push_bit 8 a" using assms by simp
  ultimately show "push_bit 8 a OR b < 2 ^ 16" by (intro OR_upper)
qed

lemma raw12_hi_bounds:
  assumes "0 \<le> (a::int)" "a < 256" "0 \<le> (b::int)" "b < 256"
  shows "0 \<le> push_bit 4 a OR drop_bit 4 b" "push_bit 4 a OR drop_bit 4 b < 2 ^ 12"
proof -
  show "0 \<le> push_bit 4 a OR drop_bit 4 b" using assms by simp
  have "push_bit 4 a < 2 ^ 12" using assms by (simp add: push_bit_eq_mult)
  moreover have "drop_bit 4 b < 2 ^ 12" using assms by (simp add: drop_bit_eq_div)
  moreover have "0 \<le> push_bit 4 a" using assms by simp
  ultimately show "push_bit 4 a OR drop_bit 4 b < 2 ^ 12" by (intro OR_upper)
qed

lemma raw12_lo_bounds:
  assumes "0 \<le> (a::int)" "0 \<le> (b::int)" "b < 256"
  shows "0 \<le> push_bit 8 (a AND 0xF) OR b" "push_bit 8 (a AND 0xF) OR b < 2 ^ 12"
proof -
  have n: "0 \<le> a AND 0xF" "a AND 0xF \<le> 0xF"
    using assms by (simp_all add: AND_upper2)
  show "0 \<le> push_bit 8 (a AND 0xF) OR b" using assms by simp
  have "push_bit 8 (a AND 0xF) < 2 ^ 12" using n by (simp add: push_bit_eq_mult)
  moreover have "b < 2 ^ 12" using assms by simp
  moreover have "0 \<le> push_bit 8 (a AND 0xF)" using assms by simp
  ultimately show "push_bit 8 (a AND 0xF) OR b < 2 ^ 12" by (intro OR_upper)
qed

lemma fl_half_odd: "fl (- (25 / 2)) = - (25 / 2)"
  using fl_exact [of "- 25" "- 1"] by simp

lemma decode_P:
  assumes "0 \<le> n" "n < 2 ^ 16"
  shows "uint_to_float n P_MIN P_MAX 16
       = Inr (Finite (fl (fl (fl (fl (of_int n) * 25) / 65535) + - (25 / 2))))"
  unfolding P_MIN_def P_MAX_def
  using uint_to_float_finite(2) [of n "12.5" "- 12.5" 25] assms
  by (simp add: fl_numeral)

lemma decode_V:
  assumes "0 \<le> n" "n < 2 ^ 12"
  shows "uint_to_float n V_MIN V_MAX 12
       = Inr (Finite (fl (fl (fl (fl (of_int n) * 16) / 4095) + - 8)))"
  unfolding V_MIN_def V_MAX_def
  using uint_to_float_finite(1) [of n 8 "- 8" 16] assms
  by (simp add: fl_numeral)

lemma decode_T:
  assumes "0 \<le> n" "n < 2 ^ 12"
  shows "uint_to_float n (fneg T_MAX) T_MAX 12
       = Inr (Finite (fl (fl (fl (fl (of_int n) * 288) / 4095) + - 144)))"
  unfolding T_MAX_def
  using uint_to_float_finite(1) [of n 144 "- 144" 288] assms
  by (simp add: fl_numeral)

lemma unpack_reply_long:
  assumes "6 \<le> length (data m)"
  shows "\<exists>p v t.
      uint_to_float (push_bit 8 (uint (data m ! 1)) OR uint (data m ! 2)) P_MIN P_MAX 16
        = Inr (Finite p)
    \<and> uint_to_float (push_bit 4 (uint (data m ! 3)) OR drop_bit 4 (uint (data m ! 4))) V_MIN V_MAX 12
        = Inr (Finite v)
    \<and> uint_to_float (push_bit 8 (uint (data m ! 4) AND 0xF) OR uint (data m ! 5)) (fneg T_MAX) T_MAX 12
        = Inr (Finite t)
    \<and> unpack_reply (Some m) ms
        = (True, ms\<lparr>p_out := Finite p, v_out := Finite v, t_out := Finite t\<rparr>)"
proof -
  note b = uint8_bounds
  note P = decode_P [OF raw16_bounds [OF b b, of "data m ! 1" "data m ! 2"]]
  note V = decode_V [OF raw12_hi_bounds [OF b b, of "data m ! 3" "data m ! 4"]]
  note T = decode_T [OF raw12_lo_bounds [OF b(1) b, of "data m ! 4" "data m ! 5"]]
  have "unpack_reply (Some m) ms
      = (True, ms\<lparr>p_out := Finite (fl (fl (fl (fl (of_int
            (push_bit 8 (uint (data m ! 1)) OR uint (data m ! 2))) * 25) / 65535) + - (25 / 2))),
          v_out := Finite (fl (fl (fl (fl (of_int
            (push_bit 4 (uint (data m ! 3)) OR drop_bit 4 (uint (data m ! 4)))) * 16) / 4095) + - 8)),
          t_out := Finite (fl (fl (fl (fl (of_int
            (push_bit 8 (uint (data m ! 4) AND 0xF) OR uint (data m ! 5))) * 288) / 4095) + - 144))\<rparr>)"
    by (simp only: unpack_reply_def unpack_reply_read_long [OF assms] P V T Let_def
        option.case sum.case prod.case)
  with P V T show ?thesis by blast
qed

text \<open>
  C7.  \<open>unpack_reply\<close> returns False (it never raises) exactly when the message is absent
  or its data is shorter than 6 bytes, and whenever it returns False the motor state,
  hence each of \<open>p_out\<close>, \<open>v_out\<close> and \<open>t_out\<close>, is what it was before the call.
\<close>

theorem unpack_reply_fails_iff:
  "(fst (unpack_reply msg ms) = False
      \<longleftrightarrow> msg = None \<or> (\<exists>m. msg = Some m \<and> length (data m) < 6))
   \<and> (fst (unpack_reply msg ms) = False \<longrightarrow> snd (unpack_reply msg ms) = ms)"
proof (cases msg)
  case None
  then show ?thesis by (simp add: unpack_reply_def)
next
  case (Some m)
  show ?thesis
  proof (cases "length (data m) < 6")
    case True
    with Some show ?thesis
      by (simp add: unpack_reply_def unpack_reply_read_short)
  next
    case False
    then have "6 \<le> length (data m)" by simp
    from unpack_reply_long [OF this, of ms] obtain p v t where
      "unpack_reply (Some m) ms
        = (True, ms\<lparr>p_out := Finite p, v_out := Finite v, t_out := Finite t\<rparr>)"
      by blast
    with Some False show ?thesis by simp
  qed
qed

theorem unpack_reply_fails_iff_witness:
  "fst (unpack_reply (Some (reply [1, 2, 3])) MotorState) = False
   \<and> snd (unpack_reply (Some (reply [1, 2, 3])) MotorState) = MotorState
   \<and> fst (unpack_reply None MotorState) = False
   \<and> fst (unpack_reply (Some (reply [0, 0, 0, 0, 0, 0])) MotorState) = True"
proof -
  have short: "length (data (reply [1, 2, 3])) < 6"
    by (simp add: reply_def)
  have long: "\<not> length (data (reply [0, 0, 0, 0, 0, 0])) < 6"
    by (simp add: reply_def)
  show ?thesis
    using unpack_reply_fails_iff [of "Some (reply [1, 2, 3])" MotorState]
      unpack_reply_fails_iff [of None MotorState]
      unpack_reply_fails_iff [of "Some (reply [0, 0, 0, 0, 0, 0])" MotorState]
      short long
    by auto
qed

text \<open>
  C4.  For every reply of at least 6 data bytes the decoder succeeds and takes
  \<open>position_raw = byte1 << 8 | byte2\<close> (below \<open>2 ^ 16\<close>),
  \<open>velocity_raw = byte3 << 4 | byte4 >> 4\<close> and
  \<open>torque_raw = (byte4 & 0xF) << 8 | byte5\<close> (both below \<open>2 ^ 12\<close>); position is decoded
  against \<open>[-12.5, 12.5]\<close> at 16 bits, velocity against \<open>[-8, 8]\<close> at 12 bits and torque
  against the symmetric \<open>[-144, 144]\<close>, which is \<open>[- T_MAX, T_MAX]\<close>, at 12 bits.
\<close>

theorem unpack_reply_layout:
  assumes "6 \<le> length (data m)"
  shows "(let position_raw = push_bit 8 (uint (data m ! 1)) OR uint (data m ! 2);
              velocity_raw = push_bit 4 (uint (data m ! 3)) OR drop_bit 4 (uint (data m ! 4));
              torque_raw = push_bit 8 (uint (data m ! 4) AND 0xF) OR uint (data m ! 5)
          in (\<exists>p v t.
                 uint_to_float position_raw (Finite (- 12.5)) (Finite 12.5) 16 = Inr (Finite p)
               \<and> uint_to_float velocity_raw (Finite (- 8)) (Finite 8) 12 = Inr (Finite v)
               \<and> uint_to_float torque_raw (Finite (- 144)) (Finite 144) 12 = Inr (Finite t)
               \<and> unpack_reply (Some m) ms =
                   (True, ms\<lparr>p_out := Finite p, v_out := Finite v, t_out := Finite t\<rparr>))
             \<and> 0 \<le> position_raw \<and> position_raw < 2 ^ 16
             \<and> 0 \<le> velocity_raw \<and> velocity_raw < 2 ^ 12
             \<and> 0 \<le> torque_raw \<and> torque_raw < 2 ^ 12)"
proof -
  have c: "P_MIN = Finite (- 12.5)" "P_MAX = Finite 12.5" "V_MIN = Finite (- 8)"
    "V_MAX = Finite 8" "T_MAX = Finite 144" "fneg (Finite 144) = Finite (- 144)"
    by (simp_all add: constants_defs)
  note b = uint8_bounds
  show ?thesis
    unfolding Let_def
    using unpack_reply_long [OF assms, of ms, unfolded c]
      raw16_bounds [OF b b, of "data m ! 1" "data m ! 2"]
      raw12_hi_bounds [OF b b, of "data m ! 3" "data m ! 4"]
      raw12_lo_bounds [OF b(1) b, of "data m ! 4" "data m ! 5"]
    by blast
qed

theorem unpack_reply_layout_witness:
  "\<exists>p v t.
      uint_to_float 0x1234 (Finite (- 12.5)) (Finite 12.5) 16 = Inr (Finite p)
    \<and> uint_to_float 0x567 (Finite (- 8)) (Finite 8) 12 = Inr (Finite v)
    \<and> uint_to_float 0x89A (Finite (- 144)) (Finite 144) 12 = Inr (Finite t)
    \<and> unpack_reply (Some (reply [0x17, 0x12, 0x34, 0x56, 0x78, 0x9A])) MotorState =
        (True, MotorState\<lparr>p_out := Finite p, v_out := Finite v, t_out := Finite t\<rparr>)"
proof -
  have len: "6 \<le> length (data (reply [0x17, 0x12, 0x34, 0x56, 0x78, 0x9A]))"
    by (simp add: reply_def)
  show ?thesis
    using unpack_reply_layout [OF len, of MotorState]
    by (simp add: Let_def reply_def)
qed

section \<open>The command encoder\<close>

lemma quantise_range:
  assumes x: "lo \<le> x" "x \<le> hi"
    and s: "fl (hi - lo) = s" "0 < s"
    and N: "fl (s * of_int N) = s * of_int N" "fl (of_int N) = of_int N" "0 \<le> N"
  shows "0 \<le> trunc_zero (fl (fl (fl (x - lo) * of_int N) / s))"
    "trunc_zero (fl (fl (fl (x - lo) * of_int N) / s)) \<le> N"
proof -
  define u where "u = fl (x - lo)"
  define w where "w = fl (u * of_int N)"
  define q where "q = fl (w / s)"
  have u: "0 \<le> u" "u \<le> s"
  proof -
    show "0 \<le> u" unfolding u_def using x by (intro fl_nonneg) simp
    have "fl (x - lo) \<le> fl (hi - lo)" using x by (intro fl_mono) simp
    then show "u \<le> s" by (simp add: u_def s)
  qed
  have w: "0 \<le> w" "w \<le> s * of_int N"
  proof -
    show "0 \<le> w" unfolding w_def using u N by (intro fl_nonneg) simp
    have "fl (u * of_int N) \<le> fl (s * of_int N)"
      using u N by (intro fl_mono mult_right_mono) simp_all
    then show "w \<le> s * of_int N" by (simp add: w_def N)
  qed
  have q: "0 \<le> q" "q \<le> of_int N"
  proof -
    show "0 \<le> q" unfolding q_def using w s by (intro fl_nonneg) simp
    have "w / s \<le> of_int N" using w s by (simp add: pos_divide_le_eq mult.commute)
    then have "fl (w / s) \<le> fl (of_int N)" by (rule fl_mono)
    then show "q \<le> of_int N" by (simp add: q_def N)
  qed
  have "trunc_zero q = \<lfloor>q\<rfloor>" using q by (simp add: trunc_zero_def)
  moreover have "0 \<le> \<lfloor>q\<rfloor>" using q by simp
  moreover have "\<lfloor>q\<rfloor> \<le> N" using q by (simp add: floor_le_iff) 
  ultimately show "0 \<le> trunc_zero (fl (fl (fl (x - lo) * of_int N) / s))"
    "trunc_zero (fl (fl (fl (x - lo) * of_int N) / s)) \<le> N"
    by (simp_all add: q_def w_def u_def)
qed

lemma constrained_12:
  assumes x: "x \<noteq> NaN"
    and r: "l \<le> h" "\<bar>h - l\<bar> \<le> 2 ^ 20" "fl (h - l) = s" "1 \<le> s" "fl (s * 4095) = s * 4095"
  shows "\<exists>n. float_to_uint (constrain x (Finite l) (Finite h)) (Finite l) (Finite h) 12 = Inr n
           \<and> 0 \<le> n \<and> n < 2 ^ 12"
proof -
  obtain c where c: "constrain x (Finite l) (Finite h) = Finite c" "l \<le> c" "c \<le> h"
    using constrain_Finite [OF r(1) x] by blast
  have cl: "\<bar>c - l\<bar> \<le> 2 ^ 20" using c r(2) by linarith
  have f: "fl (of_int 4095) = of_int 4095" by (rule fl_of_int) simp
  have s: "0 < s" using r(4) by simp
  have "0 \<le> trunc_zero (fl (fl (fl (c - l) * of_int 4095) / s))"
    "trunc_zero (fl (fl (fl (c - l) * of_int 4095) / s)) \<le> 4095"
    using quantise_range [OF c(2,3) r(3) s, of 4095] r(5) f by simp_all
  then show ?thesis
    using float_to_uint_finite(1) [OF cl r(2,3,4)] by (simp add: c(1))
qed

lemma constrained_16:
  assumes x: "x \<noteq> NaN"
    and r: "l \<le> h" "\<bar>h - l\<bar> \<le> 2 ^ 20" "fl (h - l) = s" "1 \<le> s" "fl (s * 65535) = s * 65535"
  shows "\<exists>n. float_to_uint (constrain x (Finite l) (Finite h)) (Finite l) (Finite h) 16 = Inr n
           \<and> 0 \<le> n \<and> n < 2 ^ 16"
proof -
  obtain c where c: "constrain x (Finite l) (Finite h) = Finite c" "l \<le> c" "c \<le> h"
    using constrain_Finite [OF r(1) x] by blast
  have cl: "\<bar>c - l\<bar> \<le> 2 ^ 20" using c r(2) by linarith
  have f: "fl (of_int 65535) = of_int 65535" by (rule fl_of_int) simp
  have s: "0 < s" using r(4) by simp
  have "0 \<le> trunc_zero (fl (fl (fl (c - l) * of_int 65535) / s))"
    "trunc_zero (fl (fl (fl (c - l) * of_int 65535) / s)) \<le> 65535"
    using quantise_range [OF c(2,3) r(3) s, of 65535] r(5) f by simp_all
  then show ?thesis
    using float_to_uint_finite(2) [OF cl r(2,3,4)] by (simp add: c(1))
qed

lemma quantise_P:
  assumes "x \<noteq> NaN"
  shows "\<exists>n. float_to_uint (constrain x P_MIN P_MAX) P_MIN P_MAX 16 = Inr n \<and> 0 \<le> n \<and> n < 2 ^ 16"
  unfolding P_MIN_def P_MAX_def
  by (rule constrained_16 [OF assms, where s = 25]) (simp_all add: fl_numeral)

lemma quantise_V:
  assumes "x \<noteq> NaN"
  shows "\<exists>n. float_to_uint (constrain x V_MIN V_MAX) V_MIN V_MAX 12 = Inr n \<and> 0 \<le> n \<and> n < 2 ^ 12"
  unfolding V_MIN_def V_MAX_def
  by (rule constrained_12 [OF assms, where s = 16]) (simp_all add: fl_numeral)

lemma quantise_KP:
  assumes "x \<noteq> NaN"
  shows "\<exists>n. float_to_uint (constrain x KP_MIN KP_MAX) KP_MIN KP_MAX 12 = Inr n \<and> 0 \<le> n \<and> n < 2 ^ 12"
  unfolding KP_MIN_def KP_MAX_def
  by (rule constrained_12 [OF assms, where s = 500]) (simp_all add: fl_numeral)

lemma quantise_KD:
  assumes "x \<noteq> NaN"
  shows "\<exists>n. float_to_uint (constrain x KD_MIN KD_MAX) KD_MIN KD_MAX 12 = Inr n \<and> 0 \<le> n \<and> n < 2 ^ 12"
  unfolding KD_MIN_def KD_MAX_def
  by (rule constrained_12 [OF assms, where s = 5]) (simp_all add: fl_numeral)

lemma quantise_T:
  assumes "x \<noteq> NaN"
  shows "\<exists>n. float_to_uint (constrain x T_MIN T_MAX) T_MIN T_MAX 12 = Inr n \<and> 0 \<le> n \<and> n < 2 ^ 12"
  unfolding T_MIN_def T_MAX_def
  by (rule constrained_12 [OF assms, where s = 288]) (simp_all add: fl_numeral)

lemma byte_store_ok:
  assumes "0 \<le> n" "n < 256"
  shows "byte_store n = Inr (word_of_int n)"
  using assms by (simp add: byte_store_def)

lemma uint_byte:
  assumes "0 \<le> n" "n < 256"
  shows "uint (word_of_int n :: 8 word) = n"
  using assms by (simp add: uint_word_of_int take_bit_int_eq_self)

lemma high_byte_16:
  assumes "0 \<le> (p::int)" "p < 2 ^ 16"
  shows "0 \<le> drop_bit 8 p" "drop_bit 8 p < 256"
  using assms by (simp_all add: drop_bit_eq_div)

lemma low_byte:
  assumes "0 \<le> (p::int)"
  shows "0 \<le> p AND 0xFF" "p AND 0xFF < 256"
proof -
  show "0 \<le> p AND 0xFF" using assms by simp
  have "p AND 0xFF \<le> 0xFF" by (rule AND_upper2) simp
  then show "p AND 0xFF < 256" by simp
qed

lemma high_byte_12:
  assumes "0 \<le> (v::int)" "v < 2 ^ 12"
  shows "0 \<le> drop_bit 4 v" "drop_bit 4 v < 256"
  using assms by (simp_all add: drop_bit_eq_div)

lemma shared_byte:
  assumes "0 \<le> (v::int)" "0 \<le> (k::int)" "k < 2 ^ 12"
  shows "0 \<le> push_bit 4 (v AND 0xF) OR drop_bit 8 k"
    "push_bit 4 (v AND 0xF) OR drop_bit 8 k < 256"
proof -
  have n: "0 \<le> v AND 0xF" "v AND 0xF \<le> 0xF"
    using assms by (simp_all add: AND_upper2)
  show "0 \<le> push_bit 4 (v AND 0xF) OR drop_bit 8 k" using assms by simp
  have "push_bit 4 (v AND 0xF) < 2 ^ 8" using n by (simp add: push_bit_eq_mult)
  moreover have "drop_bit 8 k < 2 ^ 8" using assms by (simp add: drop_bit_eq_div)
  moreover have "0 \<le> push_bit 4 (v AND 0xF)" using assms by simp
  ultimately have "push_bit 4 (v AND 0xF) OR drop_bit 8 k < 2 ^ 8" by (intro OR_upper)
  then show "push_bit 4 (v AND 0xF) OR drop_bit 8 k < 256" by simp
qed

lemma pack_cmd_buf_layout:
  assumes "p_in ms \<noteq> NaN" "v_in ms \<noteq> NaN" "kp_in ms \<noteq> NaN" "kd_in ms \<noteq> NaN" "t_in ms \<noteq> NaN"
  shows "\<exists>p v kp kd t.
     float_to_uint (constrain (p_in ms) P_MIN P_MAX) P_MIN P_MAX 16 = Inr p \<and> 0 \<le> p \<and> p < 2 ^ 16
   \<and> float_to_uint (constrain (v_in ms) V_MIN V_MAX) V_MIN V_MAX 12 = Inr v \<and> 0 \<le> v \<and> v < 2 ^ 12
   \<and> float_to_uint (constrain (kp_in ms) KP_MIN KP_MAX) KP_MIN KP_MAX 12 = Inr kp \<and> 0 \<le> kp \<and> kp < 2 ^ 12
   \<and> float_to_uint (constrain (kd_in ms) KD_MIN KD_MAX) KD_MIN KD_MAX 12 = Inr kd \<and> 0 \<le> kd \<and> kd < 2 ^ 12
   \<and> float_to_uint (constrain (t_in ms) T_MIN T_MAX) T_MIN T_MAX 12 = Inr t \<and> 0 \<le> t \<and> t < 2 ^ 12
   \<and> pack_cmd_buf ms =
       Inr [word_of_int (drop_bit 8 p), word_of_int (p AND 0xFF),
            word_of_int (drop_bit 4 v), word_of_int (push_bit 4 (v AND 0xF) OR drop_bit 8 kp),
            word_of_int (kp AND 0xFF),
            word_of_int (drop_bit 4 kd), word_of_int (push_bit 4 (kd AND 0xF) OR drop_bit 8 t),
            word_of_int (t AND 0xFF)]"
proof -
  obtain p where p: "float_to_uint (constrain (p_in ms) P_MIN P_MAX) P_MIN P_MAX 16 = Inr p"
    "0 \<le> p" "p < 2 ^ 16" using quantise_P [OF assms(1)] by blast
  obtain v where v: "float_to_uint (constrain (v_in ms) V_MIN V_MAX) V_MIN V_MAX 12 = Inr v"
    "0 \<le> v" "v < 2 ^ 12" using quantise_V [OF assms(2)] by blast
  obtain kp where kp: "float_to_uint (constrain (kp_in ms) KP_MIN KP_MAX) KP_MIN KP_MAX 12 = Inr kp"
    "0 \<le> kp" "kp < 2 ^ 12" using quantise_KP [OF assms(3)] by blast
  obtain kd where kd: "float_to_uint (constrain (kd_in ms) KD_MIN KD_MAX) KD_MIN KD_MAX 12 = Inr kd"
    "0 \<le> kd" "kd < 2 ^ 12" using quantise_KD [OF assms(4)] by blast
  obtain t where t: "float_to_uint (constrain (t_in ms) T_MIN T_MAX) T_MIN T_MAX 12 = Inr t"
    "0 \<le> t" "t < 2 ^ 12" using quantise_T [OF assms(5)] by blast
  have "pack_cmd_buf ms =
       Inr [word_of_int (drop_bit 8 p), word_of_int (p AND 0xFF),
            word_of_int (drop_bit 4 v), word_of_int (push_bit 4 (v AND 0xF) OR drop_bit 8 kp),
            word_of_int (kp AND 0xFF),
            word_of_int (drop_bit 4 kd), word_of_int (push_bit 4 (kd AND 0xF) OR drop_bit 8 t),
            word_of_int (t AND 0xFF)]"
    unfolding pack_cmd_buf_def Let_def
    by (simp only: p(1) v(1) kp(1) kd(1) t(1) bind_err_simps
        byte_store_ok [OF high_byte_16 [OF p(2,3)]]
        byte_store_ok [OF low_byte [OF p(2)]]
        byte_store_ok [OF high_byte_12 [OF v(2,3)]]
        byte_store_ok [OF shared_byte [OF v(2) kp(2,3)]]
        byte_store_ok [OF low_byte [OF kp(2)]]
        byte_store_ok [OF high_byte_12 [OF kd(2,3)]]
        byte_store_ok [OF shared_byte [OF kd(2) t(2,3)]]
        byte_store_ok [OF low_byte [OF t(2)]])
  with p v kp kd t show ?thesis by blast
qed

lemma pack_cmd_send:
  assumes "pack_cmd_buf ms = Inr buf"
  shows "pack_cmd (Some b) ms =
     (if send_raises b then (Inr False, Some b, ms)
      else (Inr True, Some (b\<lparr>sent := sent b @
              [\<lparr>arbitration_id = 0x17, data = buf, is_extended_id = False\<rparr>]\<rparr>), ms))"
  by (simp add: pack_cmd_def assms try_send_def bus_send_def CONTROLLER_ID_def)

lemma pack_cmd_raise:
  assumes "pack_cmd_buf ms = Inl e"
  shows "pack_cmd (Some b) ms = (Inl e, Some b, ms)"
  by (simp add: pack_cmd_def assms)

lemma constrain_Finite_eq:
  "constrain (Finite x) (Finite l) (Finite h) = Finite (max (min x h) l)"
  by (simp add: constrain_def py_min_def py_max_def max_def min_def)

lemma constrain_Inf:
  assumes "l \<le> h"
  shows "constrain PosInf (Finite l) (Finite h) = Finite h"
    "constrain NegInf (Finite l) (Finite h) = Finite l"
  using assms by (simp_all add: constrain_def py_min_def py_max_def)

text \<open>
  C1, as stated, fails for a setpoint that is NaN: \<open>max(min(nan, hi), lo)\<close> is NaN, \<open>int\<close> of
  it raises ValueError, and the exception leaves \<open>pack_cmd\<close> before a buffer exists.
\<close>

theorem pack_cmd_nan_raises:
  "constrain NaN P_MIN P_MAX = NaN
   \<and> float_to_uint NaN P_MIN P_MAX 16 = Inl ValueError
   \<and> pack_cmd_buf (MotorState\<lparr>p_in := NaN\<rparr>) = Inl ValueError
   \<and> pack_cmd (Some idle_bus) (MotorState\<lparr>p_in := NaN\<rparr>)
       = (Inl ValueError, Some idle_bus, MotorState\<lparr>p_in := NaN\<rparr>)"
proof -
  have c: "constrain NaN P_MIN P_MAX = NaN" by (rule constrain_NaN)
  have f: "float_to_uint NaN P_MIN P_MAX 16 = Inl ValueError"
    by code_simp
  have b: "pack_cmd_buf (MotorState\<lparr>p_in := NaN\<rparr>) = Inl ValueError"
    by (simp add: pack_cmd_buf_def Let_def c f)
  show ?thesis
    using c f b pack_cmd_raise [OF b] by simp
qed

text \<open>
  C1, amended.  For every motor state none of whose five setpoints is NaN, \<open>pack_cmd\<close>
  constrains each setpoint to its range (an infinite one to the nearer limit), converts
  position at 16 bits and velocity, kp, kd and torque at 12 bits, each conversion
  succeeding with a value that fits its width, and stores the 8 bytes
  \<open>pos >> 8\<close>, \<open>pos & 0xFF\<close>, \<open>vel >> 4\<close>, \<open>(vel & 0xF) << 4 | kp >> 8\<close>, \<open>kp & 0xFF\<close>,
  \<open>kd >> 4\<close>, \<open>(kd & 0xF) << 4 | t >> 8\<close>, \<open>t & 0xFF\<close>, every one of them in \<open>range(256)\<close>,
  so that no store raises; the frame holding them, addressed to 0x17, is what the bus is
  handed.  For position 5.0, velocity 2.0, kp 100.0, kd 2.0 and torque 10.0 the buffer is
  B3 32 9F F3 33 66 68 8D.
\<close>

theorem pack_cmd_layout:
  assumes "p_in ms \<noteq> NaN" "v_in ms \<noteq> NaN" "kp_in ms \<noteq> NaN" "kd_in ms \<noteq> NaN" "t_in ms \<noteq> NaN"
  shows "(\<exists>p v kp kd t.
      float_to_uint (constrain (p_in ms) P_MIN P_MAX) P_MIN P_MAX 16 = Inr p \<and> 0 \<le> p \<and> p < 2 ^ 16
    \<and> float_to_uint (constrain (v_in ms) V_MIN V_MAX) V_MIN V_MAX 12 = Inr v \<and> 0 \<le> v \<and> v < 2 ^ 12
    \<and> float_to_uint (constrain (kp_in ms) KP_MIN KP_MAX) KP_MIN KP_MAX 12 = Inr kp \<and> 0 \<le> kp \<and> kp < 2 ^ 12
    \<and> float_to_uint (constrain (kd_in ms) KD_MIN KD_MAX) KD_MIN KD_MAX 12 = Inr kd \<and> 0 \<le> kd \<and> kd < 2 ^ 12
    \<and> float_to_uint (constrain (t_in ms) T_MIN T_MAX) T_MIN T_MAX 12 = Inr t \<and> 0 \<le> t \<and> t < 2 ^ 12
    \<and> pack_cmd_buf ms =
        Inr [word_of_int (drop_bit 8 p), word_of_int (p AND 0xFF),
             word_of_int (drop_bit 4 v), word_of_int (push_bit 4 (v AND 0xF) OR drop_bit 8 kp),
             word_of_int (kp AND 0xFF),
             word_of_int (drop_bit 4 kd), word_of_int (push_bit 4 (kd AND 0xF) OR drop_bit 8 t),
             word_of_int (t AND 0xFF)]
    \<and> list_all (\<lambda>n. 0 \<le> n \<and> n < 256)
          [drop_bit 8 p, p AND 0xFF, drop_bit 4 v, push_bit 4 (v AND 0xF) OR drop_bit 8 kp,
           kp AND 0xFF, drop_bit 4 kd, push_bit 4 (kd AND 0xF) OR drop_bit 8 t, t AND 0xFF]
    \<and> pack_cmd (Some b) ms =
        (if send_raises b then (Inr False, Some b, ms)
         else (Inr True, Some (b\<lparr>sent := sent b @
                 [\<lparr>arbitration_id = 0x17,
                   data = [word_of_int (drop_bit 8 p), word_of_int (p AND 0xFF),
                           word_of_int (drop_bit 4 v),
                           word_of_int (push_bit 4 (v AND 0xF) OR drop_bit 8 kp),
                           word_of_int (kp AND 0xFF),
                           word_of_int (drop_bit 4 kd),
                           word_of_int (push_bit 4 (kd AND 0xF) OR drop_bit 8 t),
                           word_of_int (t AND 0xFF)],
                   is_extended_id = False\<rparr>]\<rparr>), ms)))
   \<and> constrain (Finite x) (Finite l) (Finite h) = Finite (max (min x h) l)
   \<and> constrain PosInf P_MIN P_MAX = P_MAX \<and> constrain NegInf P_MIN P_MAX = P_MIN
   \<and> pack_cmd_buf golden = Inr [0xB3, 0x32, 0x9F, 0xF3, 0x33, 0x66, 0x68, 0x8D]
   \<and> pack_cmd (Some b) golden =
        (if send_raises b then (Inr False, Some b, golden)
         else (Inr True, Some (b\<lparr>sent := sent b @
                 [\<lparr>arbitration_id = 0x17,
                   data = [0xB3, 0x32, 0x9F, 0xF3, 0x33, 0x66, 0x68, 0x8D],
                   is_extended_id = False\<rparr>]\<rparr>), golden))"
proof -
  obtain p v kp kd t where q:
    "float_to_uint (constrain (p_in ms) P_MIN P_MAX) P_MIN P_MAX 16 = Inr p" "0 \<le> p" "p < 2 ^ 16"
    "float_to_uint (constrain (v_in ms) V_MIN V_MAX) V_MIN V_MAX 12 = Inr v" "0 \<le> v" "v < 2 ^ 12"
    "float_to_uint (constrain (kp_in ms) KP_MIN KP_MAX) KP_MIN KP_MAX 12 = Inr kp" "0 \<le> kp" "kp < 2 ^ 12"
    "float_to_uint (constrain (kd_in ms) KD_MIN KD_MAX) KD_MIN KD_MAX 12 = Inr kd" "0 \<le> kd" "kd < 2 ^ 12"
    "float_to_uint (constrain (t_in ms) T_MIN T_MAX) T_MIN T_MAX 12 = Inr t" "0 \<le> t" "t < 2 ^ 12"
    "pack_cmd_buf ms =
        Inr [word_of_int (drop_bit 8 p), word_of_int (p AND 0xFF),
             word_of_int (drop_bit 4 v), word_of_int (push_bit 4 (v AND 0xF) OR drop_bit 8 kp),
             word_of_int (kp AND 0xFF),
             word_of_int (drop_bit 4 kd), word_of_int (push_bit 4 (kd AND 0xF) OR drop_bit 8 t),
             word_of_int (t AND 0xFF)]"
    using pack_cmd_buf_layout [OF assms] by blast
  have bytes: "list_all (\<lambda>n. 0 \<le> n \<and> n < 256)
          [drop_bit 8 p, p AND 0xFF, drop_bit 4 v, push_bit 4 (v AND 0xF) OR drop_bit 8 kp,
           kp AND 0xFF, drop_bit 4 kd, push_bit 4 (kd AND 0xF) OR drop_bit 8 t, t AND 0xFF]"
    using high_byte_16 [OF q(2,3)] low_byte [OF q(2)] high_byte_12 [OF q(5,6)]
      shared_byte [OF q(5) q(8,9)] low_byte [OF q(8)] high_byte_12 [OF q(11,12)]
      shared_byte [OF q(11) q(14,15)] low_byte [OF q(14)]
    by (simp only: list.pred_inject)
  have g: "pack_cmd_buf golden = Inr [0xB3, 0x32, 0x9F, 0xF3, 0x33, 0x66, 0x68, 0x8D]"
    by code_simp
  have i: "constrain PosInf P_MIN P_MAX = P_MAX" "constrain NegInf P_MIN P_MAX = P_MIN"
    by (simp_all add: constants_defs constrain_Inf)
  note send = pack_cmd_send [OF q(16), of b] pack_cmd_send [OF g, of b]
  from q bytes g send i constrain_Finite_eq [of x l h] show ?thesis by blast
qed

theorem pack_cmd_layout_witness:
  "pack_cmd (Some idle_bus) golden =
     (Inr True,
      Some \<lparr>sent = [\<lparr>arbitration_id = 0x17,
                     data = [0xB3, 0x32, 0x9F, 0xF3, 0x33, 0x66, 0x68, 0x8D],
                     is_extended_id = False\<rparr>],
            send_raises = False\<rparr>,
      golden)"
proof -
  have n: "p_in golden \<noteq> NaN" "v_in golden \<noteq> NaN" "kp_in golden \<noteq> NaN" "kd_in golden \<noteq> NaN"
    "t_in golden \<noteq> NaN"
    by (simp_all add: golden_def MotorState_def)
  show ?thesis
    using pack_cmd_layout [OF n, of idle_bus] by (simp add: idle_bus_def)
qed

section \<open>Frame conditions\<close>

lemma pack_cmd_frame:
  "\<exists>r bus'. pack_cmd bus ms = (r, bus', ms)
      \<and> (bus' = bus
         \<or> (\<exists>b buf. bus = Some b \<and> pack_cmd_buf ms = Inr buf \<and> r = Inr True
              \<and> bus' = Some (b\<lparr>sent := sent b @
                    [\<lparr>arbitration_id = 0x17, data = buf, is_extended_id = False\<rparr>]\<rparr>)))"
proof (cases bus)
  case None
  then have "pack_cmd bus ms = (Inr False, bus, ms)" by (simp add: pack_cmd_def)
  then show ?thesis by blast
next
  case (Some b)
  show ?thesis
  proof (cases "pack_cmd_buf ms")
    case (Inl e)
    then have "pack_cmd bus ms = (Inl e, bus, ms)"
      using Some by (simp add: pack_cmd_raise)
    then show ?thesis by blast
  next
    case (Inr buf)
    show ?thesis
    proof (cases "send_raises b")
      case True
      then have "pack_cmd bus ms = (Inr False, bus, ms)"
        using Some by (simp add: pack_cmd_send [OF Inr])
      then show ?thesis by blast
    next
      case False
      then have "pack_cmd bus ms = (Inr True, Some (b\<lparr>sent := sent b @
          [\<lparr>arbitration_id = 0x17, data = buf, is_extended_id = False\<rparr>]\<rparr>), ms)"
        using Some by (simp add: pack_cmd_send [OF Inr])
      then show ?thesis using Some Inr by blast
    qed
  qed
qed

lemma pack_cmd_returns:
  assumes "p_in ms \<noteq> NaN" "v_in ms \<noteq> NaN" "kp_in ms \<noteq> NaN" "kd_in ms \<noteq> NaN" "t_in ms \<noteq> NaN"
  shows "\<exists>ok bus'. pack_cmd bus ms = (Inr ok, bus', ms)"
proof (cases bus)
  case None
  then have "pack_cmd bus ms = (Inr False, bus, ms)" by (simp add: pack_cmd_def)
  then show ?thesis by blast
next
  case (Some b)
  obtain buf where buf: "pack_cmd_buf ms = Inr buf"
    using pack_cmd_buf_layout [OF assms] by blast
  show ?thesis
  proof (cases "send_raises b")
    case True
    then have "pack_cmd bus ms = (Inr False, bus, ms)"
      using Some by (simp add: pack_cmd_send [OF buf])
    then show ?thesis by blast
  next
    case False
    then have "pack_cmd bus ms = (Inr True, Some (b\<lparr>sent := sent b @
        [\<lparr>arbitration_id = 0x17, data = buf, is_extended_id = False\<rparr>]\<rparr>), ms)"
      using Some by (simp add: pack_cmd_send [OF buf])
    then show ?thesis by blast
  qed
qed

text \<open>
  C10.  For every bus (or none) and motor state, whether \<open>pack_cmd\<close> returns or an
  exception leaves it, the motor state after the call is the one it was given, and the bus
  is either as before or has been handed one more frame, the one holding the packed
  buffer; it returns whenever no setpoint is NaN.  When \<open>unpack_reply\<close> returns True the
  five setpoint fields are unchanged: the new state differs from the old one in \<open>p_out\<close>,
  \<open>v_out\<close> and \<open>t_out\<close> at most.
\<close>

theorem pack_unpack_frame:
  "(\<exists>r bus'. pack_cmd bus ms = (r, bus', ms)
      \<and> (bus' = bus
         \<or> (\<exists>b buf. bus = Some b \<and> pack_cmd_buf ms = Inr buf \<and> r = Inr True
              \<and> bus' = Some (b\<lparr>sent := sent b @
                    [\<lparr>arbitration_id = 0x17, data = buf, is_extended_id = False\<rparr>]\<rparr>))))
   \<and> (p_in ms \<noteq> NaN \<and> v_in ms \<noteq> NaN \<and> kp_in ms \<noteq> NaN \<and> kd_in ms \<noteq> NaN \<and> t_in ms \<noteq> NaN
        \<longrightarrow> (\<exists>ok bus'. pack_cmd bus ms = (Inr ok, bus', ms)))
   \<and> (unpack_reply msg ms = (True, ms') \<longrightarrow>
        p_in ms' = p_in ms \<and> v_in ms' = v_in ms \<and> kp_in ms' = kp_in ms
        \<and> kd_in ms' = kd_in ms \<and> t_in ms' = t_in ms
        \<and> ms' = ms\<lparr>p_out := p_out ms', v_out := v_out ms', t_out := t_out ms'\<rparr>)"
proof -
  have unpack: "unpack_reply msg ms = (True, ms') \<longrightarrow>
        p_in ms' = p_in ms \<and> v_in ms' = v_in ms \<and> kp_in ms' = kp_in ms
        \<and> kd_in ms' = kd_in ms \<and> t_in ms' = t_in ms
        \<and> ms' = ms\<lparr>p_out := p_out ms', v_out := v_out ms', t_out := t_out ms'\<rparr>"
    by (auto simp: unpack_reply_def Let_def split: option.splits sum.splits prod.splits)
  from pack_cmd_frame [of bus ms] pack_cmd_returns [of ms bus] unpack show ?thesis by blast
qed

theorem pack_unpack_frame_witness:
  "fst (unpack_reply (Some midpoint_reply) golden) = True
   \<and> p_in (snd (unpack_reply (Some midpoint_reply) golden)) = Finite 5
   \<and> v_in (snd (unpack_reply (Some midpoint_reply) golden)) = Finite 2
   \<and> kp_in (snd (unpack_reply (Some midpoint_reply) golden)) = Finite 100
   \<and> kd_in (snd (unpack_reply (Some midpoint_reply) golden)) = Finite 2
   \<and> t_in (snd (unpack_reply (Some midpoint_reply) golden)) = Finite 10
   \<and> (\<exists>ok bus'. pack_cmd (Some idle_bus) golden = (Inr ok, bus', golden))"
proof -
  have len: "6 \<le> length (data midpoint_reply)"
    by (simp add: midpoint_reply_def reply_def)
  have ok: "fst (unpack_reply (Some midpoint_reply) golden) = True"
    using unpack_reply_long [OF len, of golden] by auto
  then have e: "unpack_reply (Some midpoint_reply) golden
      = (True, snd (unpack_reply (Some midpoint_reply) golden))"
    by (metis prod.collapse)
  have n: "p_in golden \<noteq> NaN \<and> v_in golden \<noteq> NaN \<and> kp_in golden \<noteq> NaN \<and> kd_in golden \<noteq> NaN
    \<and> t_in golden \<noteq> NaN"
    by (simp add: golden_def MotorState_def)
  show ?thesis
    using pack_unpack_frame [of "Some idle_bus" golden "Some midpoint_reply"
        "snd (unpack_reply (Some midpoint_reply) golden)"] e ok n
    by (simp add: golden_def MotorState_def)
qed

section \<open>The ends of the ranges\<close>

lemma trunc_zero_of_int: "trunc_zero (of_int n) = n"
  by (simp add: trunc_zero_def)

lemma ends_channel:
  assumes r: "\<bar>h - l\<bar> \<le> 2 ^ 20" "fl (h - l) = s" "1 \<le> s" "\<bar>l\<bar> \<le> 2 ^ 20"
    and e: "fl (s * 4095) = s * 4095" "fl (s * 65535) = s * 65535" "fl l = l"
  shows "\<forall>bits \<in> {12, 16}.
     float_to_uint (Finite l) (Finite l) (Finite h) bits = Inr 0
     \<and> uint_to_float 0 (Finite l) (Finite h) bits = Inr (Finite l)
     \<and> float_to_uint (Finite h) (Finite l) (Finite h) bits = Inr (2 ^ nat bits - 1)"
proof -
  have z: "\<bar>l - l\<bar> \<le> 2 ^ 20" by simp
  have s0: "s \<noteq> 0" using r(3) by simp
  have n: "fl (of_int 4095) = of_int 4095" "fl (of_int 65535) = of_int 65535"
    by (rule fl_of_int, simp)+
  have min12: "float_to_uint (Finite l) (Finite l) (Finite h) 12 = Inr 0"
    using float_to_uint_finite(1) [OF z r(1,2,3)] by (simp add: fl_zero trunc_zero_def)
  have min16: "float_to_uint (Finite l) (Finite l) (Finite h) 16 = Inr 0"
    using float_to_uint_finite(2) [OF z r(1,2,3)] by (simp add: fl_zero trunc_zero_def)
  have "trunc_zero (fl (fl (s * 4095) / s)) = 4095"
    using s0 e(1) n(1) trunc_zero_of_int [of 4095] by simp
  then have max12: "float_to_uint (Finite h) (Finite l) (Finite h) 12 = Inr 4095"
    using float_to_uint_finite(1) [OF r(1) r(1,2,3)] by (simp add: r(2))
  have "trunc_zero (fl (fl (s * 65535) / s)) = 65535"
    using s0 e(2) n(2) trunc_zero_of_int [of 65535] by simp
  then have max16: "float_to_uint (Finite h) (Finite l) (Finite h) 16 = Inr 65535"
    using float_to_uint_finite(2) [OF r(1) r(1,2,3)] by (simp add: r(2))
  have dec: "uint_to_float 0 (Finite l) (Finite h) 12 = Inr (Finite l)"
    "uint_to_float 0 (Finite l) (Finite h) 16 = Inr (Finite l)"
    using uint_to_float_finite [of 0, OF _ _ r(1,2,4)] by (simp_all add: fl_zero e(3))
  show ?thesis
    using min12 min16 max12 max16 dec by simp
qed

text \<open>
  C5.  For every channel of the range table and both widths, encoding the minimum gives 0,
  decoding 0 gives the minimum exactly, and encoding the maximum gives \<open>2 ^ bits - 1\<close>:
  4095 at 12 bits and 65535 at 16 bits.
\<close>

theorem range_ends_exact:
  "\<forall>(lo, hi) \<in> set channels. \<forall>bits \<in> {12, 16}.
     float_to_uint lo lo hi bits = Inr 0 \<and> uint_to_float 0 lo hi bits = Inr lo
     \<and> float_to_uint hi lo hi bits = Inr (2 ^ nat bits - 1)"
proof -
  have P: "\<forall>bits \<in> {12, 16}.
     float_to_uint P_MIN P_MIN P_MAX bits = Inr 0 \<and> uint_to_float 0 P_MIN P_MAX bits = Inr P_MIN
     \<and> float_to_uint P_MAX P_MIN P_MAX bits = Inr (2 ^ nat bits - 1)"
    unfolding P_MIN_def P_MAX_def
    by (rule ends_channel [where s = 25]) (simp_all add: fl_numeral fl_half_odd)
  have V: "\<forall>bits \<in> {12, 16}.
     float_to_uint V_MIN V_MIN V_MAX bits = Inr 0 \<and> uint_to_float 0 V_MIN V_MAX bits = Inr V_MIN
     \<and> float_to_uint V_MAX V_MIN V_MAX bits = Inr (2 ^ nat bits - 1)"
    unfolding V_MIN_def V_MAX_def
    by (rule ends_channel [where s = 16]) (simp_all add: fl_numeral fl_minus)
  have KP: "\<forall>bits \<in> {12, 16}.
     float_to_uint KP_MIN KP_MIN KP_MAX bits = Inr 0 \<and> uint_to_float 0 KP_MIN KP_MAX bits = Inr KP_MIN
     \<and> float_to_uint KP_MAX KP_MIN KP_MAX bits = Inr (2 ^ nat bits - 1)"
    unfolding KP_MIN_def KP_MAX_def
    by (rule ends_channel [where s = 500]) (simp_all add: fl_numeral fl_zero)
  have KD: "\<forall>bits \<in> {12, 16}.
     float_to_uint KD_MIN KD_MIN KD_MAX bits = Inr 0 \<and> uint_to_float 0 KD_MIN KD_MAX bits = Inr KD_MIN
     \<and> float_to_uint KD_MAX KD_MIN KD_MAX bits = Inr (2 ^ nat bits - 1)"
    unfolding KD_MIN_def KD_MAX_def
    by (rule ends_channel [where s = 5]) (simp_all add: fl_numeral fl_zero)
  have T: "\<forall>bits \<in> {12, 16}.
     float_to_uint T_MIN T_MIN T_MAX bits = Inr 0 \<and> uint_to_float 0 T_MIN T_MAX bits = Inr T_MIN
     \<and> float_to_uint T_MAX T_MIN T_MAX bits = Inr (2 ^ nat bits - 1)"
    unfolding T_MIN_def T_MAX_def
    by (rule ends_channel [where s = 288]) (simp_all add: fl_numeral fl_minus)
  from P V KP KD T show ?thesis
    by (simp only: channels_def list.set ball_simps Un_iff insert_iff empty_iff
        ball_Un split_conv HOL.simp_thms)
qed

theorem range_ends_exact_witness:
  "float_to_uint P_MIN P_MIN P_MAX 16 = Inr 0 \<and> uint_to_float 0 P_MIN P_MAX 16 = Inr P_MIN
   \<and> float_to_uint P_MAX P_MIN P_MAX 16 = Inr 65535
   \<and> float_to_uint T_MAX T_MIN T_MAX 12 = Inr 4095"
proof -
  have m: "(P_MIN, P_MAX) \<in> set channels" "(T_MIN, T_MAX) \<in> set channels"
    by (simp_all add: channels_def)
  have b: "(16::int) \<in> {12, 16}" "(12::int) \<in> {12, 16}" by simp_all
  show ?thesis
    using range_ends_exact [THEN bspec, OF m(1)] range_ends_exact [THEN bspec, OF m(2)] b
    by auto
qed

section \<open>The reply of the unit test\<close>

text \<open>
  C3.  On the reply 00 80 00 08 00 08 00 00 the decoder reads the raw fields 32768, 128
  and 8: position is decoded to about 0.00019, but velocity to about -7.49988 and torque
  to about -143.437, far from the middle of their ranges.
\<close>

theorem unpack_reply_test_vector:
  "unpack_reply_read (data test_reply) = Inr (32768, 128, 8)
   \<and> unpack_reply (Some test_reply) MotorState =
       (True, MotorState\<lparr>p_out := Finite (107375820825 / 562949953421312),
                          v_out := Finite (- (4222055914401791 / 562949953421312)),
                          t_out := Finite (- (157711048077303 / 1099511627776))\<rparr>)
   \<and> py_lt (Finite (- (1 / 1000))) (p_out (snd (unpack_reply (Some test_reply) MotorState)))
   \<and> py_lt (p_out (snd (unpack_reply (Some test_reply) MotorState))) (Finite (1 / 1000))
   \<and> py_lt (v_out (snd (unpack_reply (Some test_reply) MotorState))) (Finite (- 7))
   \<and> py_lt (t_out (snd (unpack_reply (Some test_reply) MotorState))) (Finite (- 143))"
proof -
  have r: "unpack_reply_read (data test_reply) = Inr (32768, 128, 8)"
    by code_simp
  have u: "unpack_reply (Some test_reply) MotorState =
       (True, MotorState\<lparr>p_out := Finite (107375820825 / 562949953421312),
                          v_out := Finite (- (4222055914401791 / 562949953421312)),
                          t_out := Finite (- (157711048077303 / 1099511627776))\<rparr>)"
    by code_simp
  show ?thesis
    by (simp add: r u)
qed

section \<open>Clamping\<close>

text \<open>
  C2, as stated, fails for \<open>float_to_uint\<close>: it converts a value above the maximum or below
  the minimum as it stands.
\<close>

theorem float_to_uint_does_not_clamp:
  "float_to_uint (Finite 20) (Finite (- 12.5)) (Finite 12.5) 16 = Inr 85195
   \<and> float_to_uint (Finite 12.5) (Finite (- 12.5)) (Finite 12.5) 16 = Inr 65535
   \<and> float_to_uint (Finite (- 20)) (Finite (- 12.5)) (Finite 12.5) 16 = Inr (- 19660)
   \<and> float_to_uint (Finite (- 12.5)) (Finite (- 12.5)) (Finite 12.5) 16 = Inr 0
   \<and> float_to_uint (Finite 20) (Finite (- 12.5)) (Finite 12.5) 16
       \<noteq> float_to_uint (Finite 12.5) (Finite (- 12.5)) (Finite 12.5) 16
   \<and> float_to_uint (Finite (- 20)) (Finite (- 12.5)) (Finite 12.5) 16
       \<noteq> float_to_uint (Finite (- 12.5)) (Finite (- 12.5)) (Finite 12.5) 16"
proof -
  have "float_to_uint (Finite 20) (Finite (- 12.5)) (Finite 12.5) 16 = Inr 85195"
    by code_simp
  moreover have "float_to_uint (Finite 12.5) (Finite (- 12.5)) (Finite 12.5) 16 = Inr 65535"
    by code_simp
  moreover have "float_to_uint (Finite (- 20)) (Finite (- 12.5)) (Finite 12.5) 16 = Inr (- 19660)"
    by code_simp
  moreover have "float_to_uint (Finite (- 12.5)) (Finite (- 12.5)) (Finite 12.5) 16 = Inr 0"
    by code_simp
  ultimately show ?thesis by simp
qed

text \<open>
  C2, amended.  The clamping is the \<open>max(min(v, max), min)\<close> that \<open>pack_cmd\<close> applies
  before it calls \<open>float_to_uint\<close>: for every range with \<open>min < max\<close>, every width and
  every \<open>v\<close>, the constrained value of a \<open>v\<close> above the maximum is converted as the maximum
  is, and that of a \<open>v\<close> below the minimum as the minimum is; and \<open>pack_cmd\<close> builds the
  same buffer for a motor state and for the state with its five setpoints constrained.
\<close>

theorem constrain_then_float_to_uint:
  assumes "py_lt lo hi"
  shows "(py_lt hi v \<longrightarrow>
            float_to_uint (constrain v lo hi) lo hi bits = float_to_uint hi lo hi bits)
       \<and> (py_lt v lo \<longrightarrow>
            float_to_uint (constrain v lo hi) lo hi bits = float_to_uint lo lo hi bits)
       \<and> pack_cmd_buf ms =
           pack_cmd_buf (ms\<lparr>p_in := constrain (p_in ms) P_MIN P_MAX,
                             v_in := constrain (v_in ms) V_MIN V_MAX,
                             kp_in := constrain (kp_in ms) KP_MIN KP_MAX,
                             kd_in := constrain (kd_in ms) KD_MIN KD_MAX,
                             t_in := constrain (t_in ms) T_MIN T_MAX\<rparr>)"
proof -
  have i: "constrain (constrain x P_MIN P_MAX) P_MIN P_MAX = constrain x P_MIN P_MAX"
    "constrain (constrain x V_MIN V_MAX) V_MIN V_MAX = constrain x V_MIN V_MAX"
    "constrain (constrain x KP_MIN KP_MAX) KP_MIN KP_MAX = constrain x KP_MIN KP_MAX"
    "constrain (constrain x KD_MIN KD_MAX) KD_MIN KD_MAX = constrain x KD_MIN KD_MAX"
    "constrain (constrain x T_MIN T_MAX) T_MIN T_MAX = constrain x T_MIN T_MAX" for x
    unfolding constants_defs by (rule constrain_idem, simp)+
  have "pack_cmd_buf ms =
           pack_cmd_buf (ms\<lparr>p_in := constrain (p_in ms) P_MIN P_MAX,
                             v_in := constrain (v_in ms) V_MIN V_MAX,
                             kp_in := constrain (kp_in ms) KP_MIN KP_MAX,
                             kd_in := constrain (kd_in ms) KD_MIN KD_MAX,
                             t_in := constrain (t_in ms) T_MIN T_MAX\<rparr>)"
    by (simp add: pack_cmd_buf_def i)
  then show ?thesis
    using constrain_above [OF assms] constrain_below [OF assms] by simp
qed

theorem constrain_then_float_to_uint_witness:
  "float_to_uint (constrain (Finite 20) (Finite (- 12.5)) (Finite 12.5))
       (Finite (- 12.5)) (Finite 12.5) 16
     = float_to_uint (Finite 12.5) (Finite (- 12.5)) (Finite 12.5) 16
   \<and> float_to_uint (constrain (Finite (- 20)) (Finite (- 12.5)) (Finite 12.5))
       (Finite (- 12.5)) (Finite 12.5) 16
     = float_to_uint (Finite (- 12.5)) (Finite (- 12.5)) (Finite 12.5) 16
   \<and> float_to_uint (constrain PosInf (Finite (- 12.5)) (Finite 12.5))
       (Finite (- 12.5)) (Finite 12.5) 16
     = float_to_uint (Finite 12.5) (Finite (- 12.5)) (Finite 12.5) 16"
proof -
  have r: "py_lt (Finite (- 12.5)) (Finite 12.5)" by simp
  show ?thesis
    using constrain_then_float_to_uint [OF r, of "Finite 20" 16]
      constrain_then_float_to_uint [OF r, of "Finite (- 20)" 16]
      constrain_then_float_to_uint [OF r, of PosInf 16]
    by simp
qed

section \<open>The round trip\<close>

lemma tiny_le: "(2::rat) powi (- 1022) \<le> 1"
  using power_int_increasing [of "- 1022" 0 "2::rat"] by simp

lemma fl_err_512:
  assumes "\<bar>y\<bar> \<le> 512"
  shows "\<bar>fl y - y\<bar> \<le> 512 / 2 ^ 53"
  using fl_err [OF assms] tiny_le by simp

lemma roundtrip_error:
  fixes lo hi x :: rat and N si :: int
  assumes x: "lo \<le> x" "x \<le> hi"
    and s: "hi - lo = of_int si" "1 \<le> si" "si \<le> 512"
    and N: "1 \<le> N" "N \<le> 65535"
    and lh: "\<bar>lo\<bar> \<le> 512" "\<bar>hi\<bar> \<le> 512"
  defines "q \<equiv> fl (fl (fl (x - lo) * of_int N) / of_int si)"
  defines "d \<equiv> fl (fl (fl (fl (of_int (trunc_zero q)) * of_int si) / of_int N) + lo)"
  shows "\<bar>d - x\<bar> \<le> of_int si / of_int N + 1 / 2 ^ 41"
proof -
  define S :: rat where "S = of_int si"
  define M :: rat where "M = of_int N"
  define e :: rat where "e = 1 / 2 ^ 53"
  have S: "1 \<le> S" "S \<le> 512" "0 < S" using s by (simp_all add: S_def)
  have M: "1 \<le> M" "M \<le> 65535" "0 < M" using N by (simp_all add: M_def)
  have flS: "fl S = S" unfolding S_def using s by (intro fl_of_int) simp
  have flM: "fl M = M" unfolding M_def using N by (intro fl_of_int) simp
  have flSM: "fl (S * M) = S * M"
  proof -
    have "si * N \<le> 512 * 65535" using s N by (intro mult_mono) simp_all
    moreover have "0 \<le> si * N" using s N by simp
    ultimately have "fl (of_int (si * N)) = of_int (si * N)" by (intro fl_of_int) simp
    then show ?thesis by (simp add: S_def M_def)
  qed
  define u where "u = fl (x - lo)"
  define w where "w = fl (u * M)"
  have q_def': "q = fl (w / S)" by (simp add: q_def w_def u_def S_def M_def)
  have xr: "0 \<le> x - lo" "x - lo \<le> S" using x s by (simp_all add: S_def)
  have u: "0 \<le> u" "u \<le> S"
  proof -
    show "0 \<le> u" unfolding u_def using xr by (intro fl_nonneg)
    have "fl (x - lo) \<le> fl S" using xr by (intro fl_mono)
    then show "u \<le> S" by (simp add: u_def flS)
  qed
  have w: "0 \<le> w" "w \<le> S * M"
  proof -
    show "0 \<le> w" unfolding w_def using u M by (intro fl_nonneg) simp
    have "fl (u * M) \<le> fl (S * M)" using u M by (intro fl_mono mult_right_mono) simp_all
    then show "w \<le> S * M" by (simp add: w_def flSM)
  qed
  have ws: "0 \<le> w / S" "w / S \<le> M"
    using w S by (simp_all add: pos_divide_le_eq mult.commute)
  have q: "0 \<le> q" "q \<le> M"
  proof -
    show "0 \<le> q" unfolding q_def' using ws by (intro fl_nonneg)
    have "fl (w / S) \<le> fl M" using ws by (intro fl_mono)
    then show "q \<le> M" by (simp add: q_def' flM)
  qed
  define n where "n = trunc_zero q"
  have n_floor: "n = \<lfloor>q\<rfloor>" using q by (simp add: n_def trunc_zero_def)
  have n: "0 \<le> n" "n \<le> N"
    using q by (simp_all add: n_floor M_def floor_le_iff)
  define t where "t = q - of_int n"
  have t: "0 \<le> t" "t < 1" unfolding t_def n_floor by linarith+
  have fn: "fl (of_int n) = of_int n" using n N by (intro fl_of_int) simp
  have fa: "fl (of_int n * S) = of_int n * S"
  proof -
    have "n * si \<le> 65535 * 512" using n N s by (intro mult_mono) simp_all
    moreover have "0 \<le> n * si" using n s by simp
    ultimately have "fl (of_int (n * si)) = of_int (n * si)" by (intro fl_of_int) simp
    then show ?thesis by (simp add: S_def)
  qed
  define b where "b = fl (of_int n * S / M)"
  have d_def': "d = fl (b + lo)"
    by (simp add: d_def b_def n_def [symmetric] fn fa S_def [symmetric] M_def [symmetric])
  have nM: "(of_int n :: rat) \<le> M" using n by (simp add: M_def)
  have n0: "0 \<le> (of_int n :: rat)" using n by simp
  have a: "0 \<le> of_int n * S / M" "of_int n * S / M \<le> S"
  proof -
    show "0 \<le> of_int n * S / M" using n0 S M by simp
    have "of_int n * S \<le> M * S" using nM S by (intro mult_right_mono) simp_all
    then show "of_int n * S / M \<le> S" using M by (simp add: pos_divide_le_eq mult.commute)
  qed
  have b: "0 \<le> b" "b \<le> S"
  proof -
    show "0 \<le> b" unfolding b_def using a by (intro fl_nonneg)
    have "fl (of_int n * S / M) \<le> fl S" using a by (intro fl_mono)
    then show "b \<le> S" by (simp add: b_def flS)
  qed
  have bl: "\<bar>b + lo\<bar> \<le> 512"
  proof -
    have "lo \<le> b + lo" "b + lo \<le> hi" using b s by (simp_all add: S_def)
    then show ?thesis using lh by linarith
  qed
  define r1 where "r1 = u - (x - lo)"
  define r2 where "r2 = w - u * M"
  define r3 where "r3 = q - w / S"
  define r4 where "r4 = b - of_int n * S / M"
  define r5 where "r5 = d - (b + lo)"
  have r1: "\<bar>r1\<bar> \<le> 512 * e"
    unfolding r1_def u_def e_def using fl_err_512 [of "x - lo"] xr S by simp
  have r2: "\<bar>r2\<bar> \<le> 512 * M * e"
  proof -
    have "\<bar>u * M\<bar> \<le> 512 * M"
      using u S M by (simp add: abs_mult mult_right_mono)
    moreover have "2 powi (- 1022) \<le> 512 * M" using tiny_le M by linarith
    ultimately have "\<bar>fl (u * M) - u * M\<bar> \<le> 512 * M / 2 ^ 53" by (rule fl_err)
    then show ?thesis by (simp add: r2_def w_def e_def)
  qed
  have r3: "\<bar>r3\<bar> \<le> M * e"
  proof -
    have "\<bar>w / S\<bar> \<le> M" using ws by simp
    moreover have "2 powi (- 1022) \<le> M" using tiny_le M by linarith
    ultimately have "\<bar>fl (w / S) - w / S\<bar> \<le> M / 2 ^ 53" by (rule fl_err)
    then show ?thesis by (simp add: r3_def q_def' e_def)
  qed
  have r4: "\<bar>r4\<bar> \<le> 512 * e"
    unfolding r4_def b_def e_def using fl_err_512 [of "of_int n * S / M"] a S by simp
  have r5: "\<bar>r5\<bar> \<le> 512 * e"
    unfolding r5_def d_def' e_def using fl_err_512 [OF bl] by simp
  have e0: "0 \<le> e" by (simp add: e_def)
  have r2M: "\<bar>r2 / M\<bar> \<le> 512 * e"
  proof -
    have "\<bar>r2 / M\<bar> = \<bar>r2\<bar> / M" using M by simp
    also have "\<dots> \<le> 512 * M * e / M" using r2 M by (intro divide_right_mono) simp_all
    also have "\<dots> = 512 * e" using M by simp
    finally show ?thesis .
  qed
  have r3S: "\<bar>r3 * S / M\<bar> \<le> 512 * e"
  proof -
    have "\<bar>r3 * S / M\<bar> = \<bar>r3\<bar> * S / M" using M S by (simp add: abs_mult)
    also have "\<dots> \<le> M * e * S / M"
      using r3 M S by (intro divide_right_mono mult_right_mono) simp_all
    also have "\<dots> = e * S" using M by simp
    also have "\<dots> \<le> e * 512" using S e0 by (intro mult_left_mono) simp_all
    finally show ?thesis by simp
  qed
  have tS: "0 \<le> t * S / M" "t * S / M \<le> S / M"
  proof -
    show "0 \<le> t * S / M" using t S M by simp
    have "t * S \<le> 1 * S" using t S by (intro mult_right_mono) simp_all
    then show "t * S / M \<le> S / M" using M by (simp add: divide_right_mono)
  qed
  have ident: "d - x = r5 + r4 + r1 + r2 / M + r3 * S / M - t * S / M"
    using S M
    by (simp add: r1_def r2_def r3_def r4_def r5_def t_def field_simps)
  have "\<bar>d - x\<bar> \<le> S / M + 2560 * e"
    unfolding ident using r1 r4 r5 r2M r3S tS by linarith
  also have "\<dots> \<le> S / M + 1 / 2 ^ 41" by (simp add: e_def)
  finally show ?thesis by (simp add: S_def M_def)
qed

lemma py_le_Finite:
  assumes "py_le (Finite l) x" "py_le x (Finite h)"
  shows "\<exists>xr. x = Finite xr \<and> l \<le> xr \<and> xr \<le> h"
  using assms by (cases x) simp_all

lemma roundtrip_channel:
  assumes x: "l \<le> x" "x \<le> h"
    and s: "h - l = of_int si" "1 \<le> si" "si \<le> 512"
    and lh: "\<bar>l\<bar> \<le> 512" "\<bar>h\<bar> \<le> 512"
  shows "\<forall>bits \<in> {12, 16}. \<exists>n d.
           float_to_uint (Finite x) (Finite l) (Finite h) bits = Inr n
         \<and> uint_to_float n (Finite l) (Finite h) bits = Inr (Finite d)
         \<and> \<bar>d - x\<bar> \<le> (h - l) / (2 ^ nat bits - 1) + 1 / 2 ^ 41"
proof -
  define S :: rat where "S = of_int si"
  have fs: "fl (h - l) = S"
    unfolding s(1) S_def using s by (intro fl_of_int) simp
  have S1: "1 \<le> S" "0 < S" using s by (simp_all add: S_def)
  have hl: "\<bar>h - l\<bar> \<le> 2 ^ 20" using s by (simp add: s(1))
  have xl: "\<bar>x - l\<bar> \<le> 2 ^ 20" using x hl by linarith
  have l20: "\<bar>l\<bar> \<le> 2 ^ 20" using lh by simp
  have f: "fl (of_int 4095) = of_int 4095" "fl (of_int 65535) = of_int 65535"
    by (rule fl_of_int, simp)+
  have e: "fl (S * of_int 4095) = S * of_int 4095" "fl (S * of_int 65535) = S * of_int 65535"
  proof -
    have "si * 4095 \<le> 512 * 4095" "si * 65535 \<le> 512 * 65535" using s by simp_all
    then have "fl (of_int (si * 4095)) = of_int (si * 4095)"
      "fl (of_int (si * 65535)) = of_int (si * 65535)"
      using s by (intro fl_of_int, simp)+
    then show "fl (S * of_int 4095) = S * of_int 4095" "fl (S * of_int 65535) = S * of_int 65535"
      by (simp_all add: S_def)
  qed
  define n12 where "n12 = trunc_zero (fl (fl (fl (x - l) * of_int 4095) / S))"
  define n16 where "n16 = trunc_zero (fl (fl (fl (x - l) * of_int 65535) / S))"
  have r12: "0 \<le> n12" "n12 \<le> 65535"
    using quantise_range [OF x fs S1(2), of 4095] e(1) f(1) by (simp_all add: n12_def)
  have r16: "0 \<le> n16" "n16 \<le> 65535"
    using quantise_range [OF x fs S1(2), of 65535] e(2) f(2) by (simp_all add: n16_def)
  have enc: "float_to_uint (Finite x) (Finite l) (Finite h) 12 = Inr n12"
    "float_to_uint (Finite x) (Finite l) (Finite h) 16 = Inr n16"
    using float_to_uint_finite [OF xl hl fs S1(1)] by (simp_all add: n12_def n16_def)
  have dec: "uint_to_float n12 (Finite l) (Finite h) 12
        = Inr (Finite (fl (fl (fl (fl (of_int n12) * S) / of_int 4095) + l)))"
    "uint_to_float n16 (Finite l) (Finite h) 16
        = Inr (Finite (fl (fl (fl (fl (of_int n16) * S) / of_int 65535) + l)))"
    using uint_to_float_finite(1) [OF r12 hl fs l20] uint_to_float_finite(2) [OF r16 hl fs l20]
    by simp_all
  have e12: "\<bar>fl (fl (fl (fl (of_int n12) * S) / of_int 4095) + l) - x\<bar>
      \<le> (h - l) / (2 ^ nat 12 - 1) + 1 / 2 ^ 41"
    using roundtrip_error [OF x s, of 4095] lh by (simp add: n12_def S_def s(1))
  have e16: "\<bar>fl (fl (fl (fl (of_int n16) * S) / of_int 65535) + l) - x\<bar>
      \<le> (h - l) / (2 ^ nat 16 - 1) + 1 / 2 ^ 41"
    using roundtrip_error [OF x s, of 65535] lh by (simp add: n16_def S_def s(1))
  show ?thesis
    using enc dec e12 e16
    by (simp only: ball_simps insert_iff empty_iff bex_simps HOL.simp_thms) blast
qed

lemma roundtrip_pyfloat:
  assumes x: "py_le (Finite l) x" "py_le x (Finite h)"
    and s: "h - l = of_int si" "1 \<le> si" "si \<le> 512"
    and lh: "\<bar>l\<bar> \<le> 512" "\<bar>h\<bar> \<le> 512"
  shows "\<forall>bits \<in> {12, 16}. \<exists>n l' h' xr d.
           Finite l = Finite l' \<and> Finite h = Finite h' \<and> x = Finite xr
         \<and> float_to_uint x (Finite l) (Finite h) bits = Inr n
         \<and> uint_to_float n (Finite l) (Finite h) bits = Inr (Finite d)
         \<and> \<bar>d - xr\<bar> \<le> (h' - l') / (2 ^ nat bits - 1) + 1 / 2 ^ 41"
proof -
  obtain xr where xr: "x = Finite xr" "l \<le> xr" "xr \<le> h"
    using py_le_Finite [OF x] by blast
  show ?thesis
    using roundtrip_channel [OF xr(2,3) s lh] unfolding xr(1) by blast
qed

text \<open>
  C6, as stated, fails under binary64 rounding: in the velocity channel at 12 bits the
  value \<open>roundtrip_x\<close> of the range is encoded as 1055, which decodes to a value further
  from it than \<open>(max - min) / (2 ^ 12 - 1)\<close>, by about \<open>4.3e-16\<close>.
\<close>

theorem roundtrip_step_exceeded:
  "py_le V_MIN (Finite roundtrip_x) \<and> py_le (Finite roundtrip_x) V_MAX
   \<and> round64 roundtrip_x = Finite roundtrip_x
   \<and> V_MIN = Finite (- 8) \<and> V_MAX = Finite 8
   \<and> float_to_uint (Finite roundtrip_x) V_MIN V_MAX 12 = Inr 1055
   \<and> uint_to_float 1055 V_MIN V_MAX 12 = Inr (Finite (- (272882944454531 / 70368744177664)))
   \<and> (8 - (- 8)) / (2 ^ 12 - 1) < \<bar>- (272882944454531 / 70368744177664) - roundtrip_x\<bar>"
proof -
  have r: "py_le V_MIN (Finite roundtrip_x)" "py_le (Finite roundtrip_x) V_MAX"
    by (simp_all add: roundtrip_x_def constants_defs)
  have f: "round64 roundtrip_x = Finite roundtrip_x" by code_simp
  have e: "float_to_uint (Finite roundtrip_x) V_MIN V_MAX 12 = Inr 1055" by code_simp
  have d: "uint_to_float 1055 V_MIN V_MAX 12
      = Inr (Finite (- (272882944454531 / 70368744177664)))"
    by code_simp
  have "(8 - (- 8)) / (2 ^ 12 - 1)
      < \<bar>- (272882944454531 / 70368744177664) - roundtrip_x\<bar>"
    by (simp add: roundtrip_x_def)
  with r f e d show ?thesis by (simp add: constants_defs)
qed

text \<open>
  C6, amended.  Up to the rounding of the six floating-point operations: for every channel
  of the range table, both widths and every \<open>x\<close> in \<open>[min, max]\<close>, the encoding succeeds,
  the decoding of its result succeeds with a finite value, and
  \<open>\<bar>decode(encode(x)) - x\<bar> \<le> (max - min) / (2 ^ bits - 1) + 2 ^ -41\<close>.
\<close>

theorem roundtrip_within_step:
  "\<forall>(lo, hi) \<in> set channels. \<forall>bits \<in> {12, 16}. \<forall>x. py_le lo x \<and> py_le x hi \<longrightarrow>
     (\<exists>n l h xr d. lo = Finite l \<and> hi = Finite h \<and> x = Finite xr
        \<and> float_to_uint x lo hi bits = Inr n
        \<and> uint_to_float n lo hi bits = Inr (Finite d)
        \<and> \<bar>d - xr\<bar> \<le> (h - l) / (2 ^ nat bits - 1) + 1 / 2 ^ 41)"
proof -
  have P: "\<forall>bits \<in> {12, 16}. \<exists>n l h xr d. P_MIN = Finite l \<and> P_MAX = Finite h \<and> x = Finite xr
      \<and> float_to_uint x P_MIN P_MAX bits = Inr n
      \<and> uint_to_float n P_MIN P_MAX bits = Inr (Finite d)
      \<and> \<bar>d - xr\<bar> \<le> (h - l) / (2 ^ nat bits - 1) + 1 / 2 ^ 41"
    if "py_le P_MIN x" "py_le x P_MAX" for x
    using that unfolding P_MIN_def P_MAX_def
    by (rule roundtrip_pyfloat [where si = 25]) simp_all
  have V: "\<forall>bits \<in> {12, 16}. \<exists>n l h xr d. V_MIN = Finite l \<and> V_MAX = Finite h \<and> x = Finite xr
      \<and> float_to_uint x V_MIN V_MAX bits = Inr n
      \<and> uint_to_float n V_MIN V_MAX bits = Inr (Finite d)
      \<and> \<bar>d - xr\<bar> \<le> (h - l) / (2 ^ nat bits - 1) + 1 / 2 ^ 41"
    if "py_le V_MIN x" "py_le x V_MAX" for x
    using that unfolding V_MIN_def V_MAX_def
    by (rule roundtrip_pyfloat [where si = 16]) simp_all
  have KP: "\<forall>bits \<in> {12, 16}. \<exists>n l h xr d. KP_MIN = Finite l \<and> KP_MAX = Finite h \<and> x = Finite xr
      \<and> float_to_uint x KP_MIN KP_MAX bits = Inr n
      \<and> uint_to_float n KP_MIN KP_MAX bits = Inr (Finite d)
      \<and> \<bar>d - xr\<bar> \<le> (h - l) / (2 ^ nat bits - 1) + 1 / 2 ^ 41"
    if "py_le KP_MIN x" "py_le x KP_MAX" for x
    using that unfolding KP_MIN_def KP_MAX_def
    by (rule roundtrip_pyfloat [where si = 500]) simp_all
  have KD: "\<forall>bits \<in> {12, 16}. \<exists>n l h xr d. KD_MIN = Finite l \<and> KD_MAX = Finite h \<and> x = Finite xr
      \<and> float_to_uint x KD_MIN KD_MAX bits = Inr n
      \<and> uint_to_float n KD_MIN KD_MAX bits = Inr (Finite d)
      \<and> \<bar>d - xr\<bar> \<le> (h - l) / (2 ^ nat bits - 1) + 1 / 2 ^ 41"
    if "py_le KD_MIN x" "py_le x KD_MAX" for x
    using that unfolding KD_MIN_def KD_MAX_def
    by (rule roundtrip_pyfloat [where si = 5]) simp_all
  have T: "\<forall>bits \<in> {12, 16}. \<exists>n l h xr d. T_MIN = Finite l \<and> T_MAX = Finite h \<and> x = Finite xr
      \<and> float_to_uint x T_MIN T_MAX bits = Inr n
      \<and> uint_to_float n T_MIN T_MAX bits = Inr (Finite d)
      \<and> \<bar>d - xr\<bar> \<le> (h - l) / (2 ^ nat bits - 1) + 1 / 2 ^ 41"
    if "py_le T_MIN x" "py_le x T_MAX" for x
    using that unfolding T_MIN_def T_MAX_def
    by (rule roundtrip_pyfloat [where si = 288]) simp_all
  show ?thesis
    unfolding channels_def
    using P V KP KD T by (simp only: list.set ball_simps insert_iff empty_iff Un_iff ball_Un
        split_conv HOL.simp_thms) blast
qed

theorem roundtrip_within_step_witness:
  "\<exists>d. uint_to_float 1055 V_MIN V_MAX 12 = Inr (Finite d)
      \<and> \<bar>d - roundtrip_x\<bar> \<le> (8 - (- 8)) / (2 ^ 12 - 1) + 1 / 2 ^ 41"
proof -
  have m: "(V_MIN, V_MAX) \<in> set channels" by (simp add: channels_def)
  have b: "(12::int) \<in> {12, 16}" by simp
  have r: "py_le V_MIN (Finite roundtrip_x) \<and> py_le (Finite roundtrip_x) V_MAX"
    by (simp add: roundtrip_x_def constants_defs)
  have e: "float_to_uint (Finite roundtrip_x) V_MIN V_MAX 12 = Inr 1055" by code_simp
  obtain n l h xr d where w: "V_MIN = Finite l" "V_MAX = Finite h" "Finite roundtrip_x = Finite xr"
    "float_to_uint (Finite roundtrip_x) V_MIN V_MAX 12 = Inr n"
    "uint_to_float n V_MIN V_MAX 12 = Inr (Finite d)"
    "\<bar>d - xr\<bar> \<le> (h - l) / (2 ^ nat 12 - 1) + 1 / 2 ^ 41"
    using roundtrip_within_step [THEN bspec, OF m] b r by fastforce
  have "l = - 8" "h = 8" "xr = roundtrip_x" "n = 1055"
    using w e by (simp_all add: constants_defs)
  with w show ?thesis by auto
qed

section \<open>The continuous-send scheduler\<close>

lemma floor_literal:
  "round64 (1 / 100) = Finite (5764607523034235 / 576460752303423488)"
  by code_simp

lemma log_app_present:
  "log_label s = Some l \<Longrightarrow>
     log_app s m = (None, s\<lparr>log_label := Some (Log m), printed := printed s @ [m]\<rparr>)"
  by (simp add: log_app_def)

lemma stop_continuous_stopped:
  "continuous_active s = Some False \<Longrightarrow> stop_continuous s = (None, s)"
  by (simp add: stop_continuous_def)

lemma toggle_continuous_floor:
  assumes "continuous_active s = Some False" "continuous_checkbox s = Some box_text"
    and "continuous_button s = Some b" "log_label s = Some l"
    and "float_of_text box_text = Some parsed" "py_lt parsed (round64 (1 / 100))"
  shows "toggle_continuous float_of_text s =
     (None, s\<lparr>continuous_active := Some True,
               continuous_button := Some
                 (b\<lparr>button_text := ''Stop Continuous'',
                    button_background_color :=
                      (round64 (7 / 10), round64 (2 / 10), round64 (2 / 10), Finite 1)\<rparr>),
               continuous_event := Some (Some \<lparr>timeout = round64 (1 / 100)\<rparr>),
               clock := clock s @ [\<lparr>timeout = round64 (1 / 100)\<rparr>],
               log_label := Some (Log (Started_continuous (round64 (1 / 100)))),
               printed := printed s @ [Started_continuous (round64 (1 / 100))]\<rparr>)"
  using assms by (simp add: toggle_continuous_def Let_def log_app_def)

lemma scheduler_after_build:
  "stop_continuous (build MotorControlApp) = (None, build MotorControlApp)
   \<and> (float_of_text ''0.1'' = Some parsed \<and> py_lt parsed (round64 (1 / 100)) \<longrightarrow>
        fst (toggle_continuous float_of_text (build MotorControlApp)) = None
      \<and> clock (snd (toggle_continuous float_of_text (build MotorControlApp)))
           = [\<lparr>timeout = Finite (5764607523034235 / 576460752303423488)\<rparr>]
      \<and> continuous_active (snd (toggle_continuous float_of_text (build MotorControlApp)))
           = Some True)"
proof -
  have s: "stop_continuous (build MotorControlApp) = (None, build MotorControlApp)"
    by (rule stop_continuous_stopped) (simp add: build_def)
  have t: "fst (toggle_continuous float_of_text (build MotorControlApp)) = None
      \<and> clock (snd (toggle_continuous float_of_text (build MotorControlApp)))
           = [\<lparr>timeout = Finite (5764607523034235 / 576460752303423488)\<rparr>]
      \<and> continuous_active (snd (toggle_continuous float_of_text (build MotorControlApp)))
           = Some True"
    if p: "float_of_text ''0.1'' = Some parsed" "py_lt parsed (round64 (1 / 100))"
  proof -
    have a: "continuous_active (build MotorControlApp) = Some False"
      "continuous_checkbox (build MotorControlApp) = Some ''0.1''"
      "continuous_button (build MotorControlApp) = Some \<lparr>button_text = ''Start Continuous'',
          button_background_color = (Finite 1, Finite 1, Finite 1, Finite 1)\<rparr>"
      "log_label (build MotorControlApp) = Some Log_ready"
      by (simp_all add: build_def)
    show ?thesis
      unfolding toggle_continuous_floor
        [where float_of_text = float_of_text and box_text = "''0.1''", OF a p]
      by (simp add: build_def MotorControlApp_def floor_literal)
  qed
  show ?thesis using s t by blast
qed

text \<open>
  C9.  The two scheduler attributes are created by \<open>build\<close>, not by \<open>__init__\<close>.  On an
  application object that has been constructed and not built, as the one of
  \<open>test_continuous_control\<close>, stopping the scheduler, which was never started, raises
  AttributeError, and so does starting it, whatever the interval: nothing is scheduled and
  \<open>continuous_active\<close> is not set, where the test asserts that it is true.
\<close>

theorem continuous_control_before_build:
  "stop_continuous MotorControlApp = (Some AttributeError, MotorControlApp)
   \<and> toggle_continuous float_of_text MotorControlApp = (Some AttributeError, MotorControlApp)
   \<and> stop_continuous tested_app = (Some AttributeError, tested_app)
   \<and> toggle_continuous float_of_text tested_app = (Some AttributeError, tested_app)
   \<and> continuous_active (snd (toggle_continuous float_of_text tested_app)) = None
   \<and> clock (snd (toggle_continuous float_of_text tested_app)) = []"
  by (simp add: stop_continuous_def toggle_continuous_def tested_app_def MotorControlApp_def)

end
